theory Spec2Isabelle
  imports Main "HOL-Library.Multiset"
begin

section \<open>The two source files\<close>

text \<open>
  The repository holds two near-identical implementations of the game: \<open>script.js\<close>
  (a hard-coded Generation 1 pool) and the unnamed file \<open>part_001\<close> (a pool fetched
  from the generation endpoints). Their game logic is the same function by function;
  where the two bodies differ, the model takes the file as a parameter and follows
  the file named. One difference lies outside the bodies: both files call
  \<open>updateProgress()\<close>, and only \<open>part_001\<close> declares it.
\<close>

datatype source_file = Script_js | Part_001

definition MAX_GROUPS :: nat where "MAX_GROUPS = 4"
definition GROUP_SIZE :: nat where "GROUP_SIZE = 4"
definition MAX_BOARD :: nat where "MAX_BOARD = MAX_GROUPS * GROUP_SIZE"

section \<open>The outside world: randomness and the remote catalog\<close>

text \<open>
  \<open>Math.random()\<close> and \<open>fetch\<close> are the only inputs the code reads from outside.
  Both are oracles indexed by a clock that every call advances, so that two lookups
  of the same name may answer differently (a transient failure). \<open>data.types\<close> is
  kept as the list of its \<open>type.name\<close> strings, the only part the code reads.
\<close>

datatype fetch_error = NotFound | TransientFetchError

text \<open>
  What a request to a generation endpoint comes to in \<open>getPoolForGens\<close>: the request
  or the reading of its body throws, the response is not \<open>ok\<close>, or it lists the
  names of its \<open>pokemon_species\<close>.
\<close>

datatype generation_response = Request_throws | Not_ok | Species_list "string list"

record species =
  species_is_legendary :: bool
  species_generation :: "string option"
  species_evolution_chain :: "string option"

record world =
  math_random :: "nat \<Rightarrow> nat"
  pokemon_endpoint :: "nat \<Rightarrow> string \<Rightarrow> fetch_error + string list"
  species_endpoint :: "nat \<Rightarrow> string \<Rightarrow> fetch_error + species"
  generation_endpoint :: "nat \<Rightarrow> nat \<Rightarrow> generation_response"

record metadata =
  types :: "string list"
  is_legendary :: bool
  generation :: "string option"
  evolution_chain :: "string option"

text \<open>The object of the \<open>catch\<close> branch: \<open>{ name, types: [], is_legendary: false }\<close>.\<close>

definition no_metadata :: metadata where
  "no_metadata = \<lparr>types = [], is_legendary = False, generation = None, evolution_chain = None\<rparr>"

text \<open>
  \<open>fetchPokemonData\<close>. In \<open>script.js\<close> one \<open>try\<close> covers both requests; in
  \<open>part_001\<close> the species request has a \<open>try\<close> of its own that leaves
  \<open>species = null\<close>. The species request goes to \<open>data.species.url\<close>; the oracle
  is asked under the name whose lookup it belongs to.
\<close>

definition fetchPokemonData :: "source_file \<Rightarrow> world \<Rightarrow> string \<Rightarrow> nat \<Rightarrow> metadata \<times> nat" where
  "fetchPokemonData f w n t =
     (case pokemon_endpoint w t n of
        Inl e \<Rightarrow> (no_metadata, Suc t)
      | Inr tys \<Rightarrow>
          (case species_endpoint w t n of
             Inl e \<Rightarrow>
               (case f of
                  Script_js \<Rightarrow> (no_metadata, Suc t)
                | Part_001 \<Rightarrow>
                    (\<lparr>types = tys, is_legendary = False, generation = None,
                      evolution_chain = None\<rparr>, Suc t))
           | Inr sp \<Rightarrow>
               (\<lparr>types = tys, is_legendary = species_is_legendary sp,
                 generation = species_generation sp,
                 evolution_chain = species_evolution_chain sp\<rparr>, Suc t)))"

text \<open>A value used as a condition: \<open>null\<close>, \<open>undefined\<close> and \<open>""\<close> are falsy.\<close>

definition truthy :: "string option \<Rightarrow> bool" where
  "truthy v = (case v of None \<Rightarrow> False | Some s \<Rightarrow> s \<noteq> [])"

text \<open>
  \<open>meta.types && meta.types[0] && meta.types[0].type.name\<close>, read for its truth value:
  an empty string is falsy like \<open>undefined\<close>.
\<close>

definition primaryType :: "metadata \<Rightarrow> string option" where
  "primaryType m = (case types m of [] \<Rightarrow> None | ty # _ \<Rightarrow> if ty = [] then None else Some ty)"

section \<open>Utility functions\<close>

text \<open>
  \<open>function shuffle(a){ for(let i=a.length-1;i>0;i--){
      const j=Math.floor(Math.random()*(i+1)); [a[i],a[j]]=[a[j],a[i]] } return a }\<close>
  The index \<open>j\<close> is any of \<open>0..i\<close>: the oracle's value modulo \<open>i + 1\<close>.
\<close>

fun shuffle_from :: "world \<Rightarrow> nat \<Rightarrow> 'a list \<Rightarrow> nat \<Rightarrow> 'a list \<times> nat" where
  "shuffle_from w 0 a t = (a, t)"
| "shuffle_from w (Suc k) a t =
     (let i = Suc k; j = math_random w t mod (i + 1)
      in shuffle_from w k (a[i := a ! j, j := a ! i]) (Suc t))"

definition shuffle :: "world \<Rightarrow> 'a list \<Rightarrow> nat \<Rightarrow> 'a list \<times> nat" where
  "shuffle w a t = shuffle_from w (length a - 1) a t"

definition sampleArray :: "world \<Rightarrow> 'a list \<Rightarrow> nat \<Rightarrow> nat \<Rightarrow> 'a list \<times> nat" where
  "sampleArray w arr n t = (let (a, t') = shuffle w arr t in (take n a, t'))"

text \<open>\<open>indexOf\<close> then \<open>splice(idx, 1)\<close>: the first occurrence of each item goes.\<close>

definition removeFromPool :: "'a list \<Rightarrow> 'a list \<Rightarrow> 'a list" where
  "removeFromPool pool items = fold remove1 items pool"

text \<open>\<open>Array.prototype.findIndex\<close>: the first index whose element passes, or \<open>-1\<close>.\<close>

fun findIndex :: "('a \<Rightarrow> bool) \<Rightarrow> 'a list \<Rightarrow> int" where
  "findIndex P [] = -1"
| "findIndex P (x # xs) =
     (if P x then 0 else (let r = findIndex P xs in if r < 0 then -1 else r + 1))"

text \<open>The values of \<open>new Set(xs)\<close> in insertion order.\<close>

fun js_set :: "'a list \<Rightarrow> 'a list" where
  "js_set [] = []"
| "js_set (x # xs) = x # js_set (filter (\<lambda>y. y \<noteq> x) xs)"

text \<open>\<open>String.prototype.toLowerCase\<close> on the ASCII letters.\<close>

definition toLowerCase :: "string \<Rightarrow> string" where
  "toLowerCase s =
     map (\<lambda>c. case map_of (zip ''ABCDEFGHIJKLMNOPQRSTUVWXYZ'' ''abcdefghijklmnopqrstuvwxyz'') c of
               None \<Rightarrow> c | Some l \<Rightarrow> l) s"

section \<open>Game state\<close>

record card =
  name :: string
  metadata :: metadata
  groupId :: int
  locked :: bool

datatype progress_item = GroupCorrect int | IncorrectGroup "string list"

datatype status =
    Blank
  | Generating
  | FetchingMetadata
  | GameReady
  | ErrorGenerating
  | SelectUpTo
  | SelectExactly
  | CorrectLocked
  | NotCorrect
  | Congratulations
  | Revealing
  | Hints "string list"

record game =
  cardData :: "card list"
  selected :: "nat list"
  solutions :: "string list list"
  status :: status
  progress :: "progress_item list"

definition resetState :: game where
  "resetState = \<lparr>cardData = [], selected = [], solutions = [], status = Blank, progress = []\<rparr>"

text \<open>
  The ways a call can end other than by returning: the error \<open>startGame\<close> throws
  on a pool of fewer than \<open>MAX_BOARD\<close> names, the two errors the JavaScript
  engine throws in this code, and a loop that never ends.
\<close>

datatype failure = InsufficientPool | TypeError | ReferenceError | Never_returns

text \<open>
  \<open>renderBoard()\<close> rebuilds the buttons of the board from \<open>cardData\<close>, which
  changes nothing of the state kept here, and then calls \<open>updateProgress()\<close>.
  \<open>part_001\<close> declares \<open>updateProgress\<close> with an empty body. \<open>script.js\<close>
  declares no function of that name, so there the call throws a
  \<open>ReferenceError\<close>, after the buttons have been built.
\<close>

definition updateProgress :: "source_file \<Rightarrow> failure option" where
  "updateProgress f = (case f of Script_js \<Rightarrow> Some ReferenceError | Part_001 \<Rightarrow> None)"

definition renderBoard :: "source_file \<Rightarrow> game \<Rightarrow> failure + game" where
  "renderBoard f g = (case updateProgress f of Some e \<Rightarrow> Inl e | None \<Rightarrow> Inr g)"

subsection \<open>Selecting cards\<close>

datatype click_result = Ignored_Locked | Deselected | Selected | SelectionFull | Click_TypeError

text \<open>
  \<open>onCardClick(idx, el)\<close>. \<open>cardData[idx]\<close> outside the board is \<open>undefined\<close> and
  reading \<open>.locked\<close> of it throws before anything is changed.
\<close>

definition onCardClick :: "nat \<Rightarrow> game \<Rightarrow> click_result \<times> game" where
  "onCardClick idx g =
     (if length (cardData g) \<le> idx then (Click_TypeError, g)
      else if locked (cardData g ! idx) then (Ignored_Locked, g)
      else if idx \<in> set (selected g) then (Deselected, g\<lparr>selected := remove1 idx (selected g)\<rparr>)
      else if GROUP_SIZE \<le> length (selected g) then (SelectionFull, g\<lparr>status := SelectUpTo\<rparr>)
      else (Selected, g\<lparr>selected := selected g @ [idx]\<rparr>))"

definition clearSelection :: "game \<Rightarrow> game" where
  "clearSelection g = g\<lparr>selected := [], status := Blank\<rparr>"

subsection \<open>Submitting a guess\<close>

text \<open>\<open>cardData.filter(c => c.locked).length === 16\<close> (\<open>MAX_BOARD\<close> in \<open>part_001\<close>).\<close>

definition lockedCount :: "card list \<Rightarrow> nat" where
  "lockedCount cs = length (filter locked cs)"

definition checkWin :: "game \<Rightarrow> game" where
  "checkWin g = (if lockedCount (cardData g) = MAX_BOARD then g\<lparr>status := Congratulations\<rparr> else g)"

datatype verdict = InvalidSelectionSize | Correct int | Incorrect | Lock_TypeError

text \<open>\<open>selected.forEach(i => cardData[i].locked = true)\<close>\<close>

definition lockCards :: "nat list \<Rightarrow> card list \<Rightarrow> card list" where
  "lockCards sel cs = fold (\<lambda>i cs. cs[i := (cs ! i)\<lparr>locked := True\<rparr>]) sel cs"

text \<open>\<open>solutions.findIndex(g => g.includes(n))\<close>\<close>

definition solutionIndex :: "string list list \<Rightarrow> string \<Rightarrow> int" where
  "solutionIndex sols n = findIndex (\<lambda>grp. n \<in> set grp) sols"

text \<open>
  \<open>solutions[gid] = []\<close>; for \<open>gid = -1\<close> the assignment adds a property named
  \<open>"-1"\<close> and leaves the array's elements alone.
\<close>

definition clearSolution :: "int \<Rightarrow> string list list \<Rightarrow> string list list" where
  "clearSolution gid sols = (if 0 \<le> gid then sols[nat gid := []] else sols)"

text \<open>
  \<open>lockSelection()\<close>: the verdict it shows and the state it leaves. A selected
  index outside the board makes \<open>cardData[i].name\<close> throw before any state is
  changed. In the correct branch the cards are locked, the progress item and the
  status are written and \<open>solutions[gid]\<close> is emptied; then comes
  \<open>renderBoard()\<close>, and only when it returns are the selection emptied and
  \<open>checkWin()\<close> called. When \<open>renderBoard()\<close> throws, the function ends there
  with the state as it is at that point.
\<close>

definition lockSelection :: "source_file \<Rightarrow> game \<Rightarrow> verdict \<times> game" where
  "lockSelection f g =
     (if length (selected g) \<noteq> GROUP_SIZE then (InvalidSelectionSize, g\<lparr>status := SelectExactly\<rparr>)
      else if \<exists>i \<in> set (selected g). length (cardData g) \<le> i then (Lock_TypeError, g)
      else
        let names = map (\<lambda>i. name (cardData g ! i)) (selected g);
            groupIds = js_set (map (solutionIndex (solutions g)) names)
        in if length groupIds = 1 then
             let gid = hd groupIds;
                 g1 = g\<lparr>cardData := lockCards (selected g) (cardData g),
                        progress := progress g @ [GroupCorrect (gid + 1)],
                        status := CorrectLocked,
                        solutions := clearSolution gid (solutions g)\<rparr>
             in (Correct gid,
                 case renderBoard f g1 of
                   Inl e \<Rightarrow> g1
                 | Inr g2 \<Rightarrow> checkWin (g2\<lparr>selected := []\<rparr>))
           else (Incorrect, g\<lparr>progress := progress g @ [IncorrectGroup names], status := NotCorrect\<rparr>))"

subsection \<open>Revealing the answers\<close>

text \<open>
  \<open>fetchPokemonData\<close> stores in \<open>metadata.generation\<close> the string
  \<open>species.generation.name\<close>. \<open>inferHintForGroup\<close> then reads
  \<open>m.generation && m.generation.name\<close>: a JavaScript string has no property
  \<open>name\<close>, so for a non-empty string the value is \<open>undefined\<close>, and for
  \<open>null\<close>, \<open>undefined\<close> or the empty string it is that falsy value itself.
\<close>

definition name_of_string :: "string \<Rightarrow> string option" where
  "name_of_string s = None"

definition generation_name :: "metadata \<Rightarrow> string option" where
  "generation_name m = (if truthy (generation m) then name_of_string (the (generation m)) else None)"

text \<open>\<open>gen.replace('-', ' ')\<close>: the first hyphen only.\<close>

fun replace_hyphen :: "string \<Rightarrow> string" where
  "replace_hyphen [] = []"
| "replace_hyphen (c # cs) = (if c = CHR ''-'' then CHR '' '' # cs else c # replace_hyphen cs)"

text \<open>
  \<open>names.map(n => { const c = cardData.find(cd => cd.name === n);
     return c && c.metadata ? c.metadata : null; }).filter(Boolean)\<close>
\<close>

definition groupMetas :: "card list \<Rightarrow> string list \<Rightarrow> metadata list" where
  "groupMetas cs names =
     List.map_filter (\<lambda>n. map_option metadata (find (\<lambda>cd. name cd = n) cs)) names"

text \<open>
  The tests of \<open>inferHintForGroup\<close> on the metadata found, in the order of the
  source: primary type, generation, legendary, evolution chain, fallback.
\<close>

definition hintOfMetas :: "metadata list \<Rightarrow> string" where
  "hintOfMetas metas =
     (if metas = [] then ''Unknown''
      else
        let firstType = primaryType (hd metas) in
        if truthy firstType \<and> (\<forall>m \<in> set metas. primaryType m = firstType)
        then ''All are '' @ the firstType @ '' type''
        else
          let gen = generation_name (hd metas) in
          if truthy gen \<and> (\<forall>m \<in> set metas. generation_name m = gen)
          then ''All from '' @ replace_hyphen (the gen)
          else if \<forall>m \<in> set metas. is_legendary m then ''All Legendary''
          else
            let chain = evolution_chain (hd metas) in
            if truthy chain \<and> (\<forall>m \<in> set metas. evolution_chain m = chain)
            then ''Same evolution family''
            else ''A shared connection'')"

definition inferHintForGroup :: "card list \<Rightarrow> string list \<Rightarrow> string" where
  "inferHintForGroup cs names = hintOfMetas (groupMetas cs names)"

text \<open>
  \<open>groupMap\<close> of \<open>revealAnswers\<close>: the card names under their \<open>groupId\<close>.
  \<open>Object.values\<close> lists the non-negative integer keys in ascending order and then
  the other keys (here only \<open>"-1"\<close>) in insertion order.
\<close>

definition groupMap :: "card list \<Rightarrow> (int \<times> string list) list" where
  "groupMap cs =
     (let gids = js_set (map groupId cs);
          keys = sort (filter (\<lambda>k. 0 \<le> k) gids) @ filter (\<lambda>k. k < 0) gids
      in map (\<lambda>k. (k, map name (filter (\<lambda>c. groupId c = k) cs))) keys)"

definition revealAnswers :: "game \<Rightarrow> game" where
  "revealAnswers g =
     g\<lparr>status := Hints (map (\<lambda>(k, names). inferHintForGroup (cardData g) names) (groupMap (cardData g)))\<rparr>"

subsection \<open>A session: user events after the board is published\<close>

datatype action = CardClick nat | LockGroup | ClearSelection | Reveal

fun step :: "source_file \<Rightarrow> action \<Rightarrow> game \<Rightarrow> game" where
  "step f (CardClick idx) g = snd (onCardClick idx g)"
| "step f LockGroup g = snd (lockSelection f g)"
| "step f ClearSelection g = clearSelection g"
| "step f Reveal g = revealAnswers g"

definition run :: "source_file \<Rightarrow> action list \<Rightarrow> game \<Rightarrow> game" where
  "run f acts g = fold (step f) acts g"

section \<open>Publishing the board\<close>

text \<open>\<open>await Promise.all(shuffled.map(name => fetchPokemonData(name)))\<close>\<close>

fun fetchAll :: "source_file \<Rightarrow> world \<Rightarrow> string list \<Rightarrow> nat \<Rightarrow> metadata list \<times> nat" where
  "fetchAll f w [] t = ([], t)"
| "fetchAll f w (n # ns) t =
     (let (m, t1) = fetchPokemonData f w n t; (ms, t2) = fetchAll f w ns t1 in (m # ms, t2))"

text \<open>
  \<open>startGame\<close> from the assignment of \<open>solutions\<close> to the assignment of
  \<open>cardData\<close>: shuffle the names, report that the metadata are being fetched,
  fetch them and build the cards.
\<close>

definition publishBoard :: "source_file \<Rightarrow> world \<Rightarrow> string list list \<Rightarrow> nat \<Rightarrow> game \<times> nat" where
  "publishBoard f w sols t =
     (let flat = concat sols;
          (shuffled, t1) = shuffle w flat t;
          (metas, t2) = fetchAll f w shuffled t1;
          cards = map2 (\<lambda>n m. \<lparr>name = n, metadata = m, groupId = solutionIndex sols n, locked = False\<rparr>)
                    shuffled metas
      in (resetState\<lparr>cardData := cards, solutions := sols, status := FetchingMetadata\<rparr>, t2))"

section \<open>Group builders\<close>

text \<open>
  \<open>typeMembers\<close> and \<open>chainMap\<close> are objects used as dictionaries from a key to
  the array of names pushed under it. The list keeps the keys in the order they
  were first written.
\<close>

type_synonym buckets = "(string \<times> string list) list"

text \<open>
  \<open>m[k] = m[k] || []; m[k].push(n)\<close>, for a key \<open>k\<close> that is not the name of a
  property every object inherits: for such a name (\<open>constructor\<close>, \<open>toString\<close>,
  ...) \<open>m[k]\<close> is the inherited value, not \<open>undefined\<close>. The keys here are the
  type names and the evolution chain URLs of the catalog; \<open>plain_keys\<close> below says
  of a world that none of them is such a name.
\<close>

fun push_member :: "string \<Rightarrow> string \<Rightarrow> buckets \<Rightarrow> buckets" where
  "push_member k n [] = [(k, [n])]"
| "push_member k n ((k', ms) # rest) =
     (if k' = k then (k', ms @ [n]) # rest else (k', ms) # push_member k n rest)"

definition members :: "buckets \<Rightarrow> string \<Rightarrow> string list" where
  "members b k = (case map_of b k of None \<Rightarrow> [] | Some ms \<Rightarrow> ms)"

text \<open>The \<open>for (const name of sample)\<close> loop of \<open>buildTypeGroup\<close>.\<close>

fun typeScan ::
  "source_file \<Rightarrow> world \<Rightarrow> nat \<Rightarrow> buckets \<Rightarrow> string list \<Rightarrow> nat \<Rightarrow> string list option \<times> nat" where
  "typeScan f w size' typeMembers [] t = (None, t)"
| "typeScan f w size' typeMembers (n # rest) t =
     (let (meta, t1) = fetchPokemonData f w n t in
      case primaryType meta of
        None \<Rightarrow> typeScan f w size' typeMembers rest t1
      | Some ty \<Rightarrow>
          let typeMembers' = push_member ty n typeMembers in
          if size' \<le> length (members typeMembers' ty)
          then (Some (take size' (members typeMembers' ty)), t1)
          else typeScan f w size' typeMembers' rest t1)"

definition buildTypeGroup ::
  "source_file \<Rightarrow> world \<Rightarrow> string list \<Rightarrow> nat \<Rightarrow> nat \<Rightarrow> string list option \<times> nat" where
  "buildTypeGroup f w pool size' t =
     (let (sample, t1) = shuffle w pool t in typeScan f w size' [] sample t1)"

text \<open>
  The \<open>for (const name of pool)\<close> loop of \<open>buildEvolutionGroup\<close>: \<open>Inl\<close> is the
  \<open>return\<close> inside the loop, \<open>Inr\<close> the \<open>chainMap\<close> at the loop's end.
\<close>

fun chainScan ::
  "source_file \<Rightarrow> world \<Rightarrow> nat \<Rightarrow> buckets \<Rightarrow> string list \<Rightarrow> nat \<Rightarrow> (string list + buckets) \<times> nat" where
  "chainScan f w minSize chainMap [] t = (Inr chainMap, t)"
| "chainScan f w minSize chainMap (n # rest) t =
     (let (p, t1) = fetchPokemonData f w n t in
      case evolution_chain p of
        None \<Rightarrow> chainScan f w minSize chainMap rest t1
      | Some chainUrl \<Rightarrow>
          if chainUrl = [] then chainScan f w minSize chainMap rest t1
          else
            let chainMap' = push_member chainUrl n chainMap in
            if minSize \<le> length (members chainMap' chainUrl)
            then (Inl (take minSize (members chainMap' chainUrl)), t1)
            else chainScan f w minSize chainMap' rest t1)"

text \<open>
  \<open>Object.keys\<close> lists first the keys that are array indices, in ascending
  numeric order, and then the other keys in the order they were first written. A
  key is an array index when it is the decimal numeral, without a sign or a
  leading zero, of an integer from 0 to 4294967294.
\<close>

definition digit :: "char \<Rightarrow> nat option" where
  "digit c = map_of (zip ''0123456789'' [0, 1, 2, 3, 4, 5, 6, 7, 8, 9]) c"

definition arrayIndex :: "string \<Rightarrow> nat option" where
  "arrayIndex k =
     (if k = [] \<or> (hd k = CHR ''0'' \<and> tl k \<noteq> []) \<or> \<not> list_all (\<lambda>c. digit c \<noteq> None) k
      then None
      else let v = foldl (\<lambda>a c. 10 * a + the (digit c)) 0 k
           in if v < 4294967295 then Some v else None)"

definition Object_keys :: "buckets \<Rightarrow> string list" where
  "Object_keys b =
     (let keys = map fst b
      in sort_key (\<lambda>k. the (arrayIndex k)) (filter (\<lambda>k. arrayIndex k \<noteq> None) keys)
         @ filter (\<lambda>k. arrayIndex k = None) keys)"

text \<open>
  \<open>let best = []; for (const k of Object.keys(chainMap))
     if (chainMap[k].length > best.length) best = chainMap[k];\<close>
\<close>

definition largestBucket :: "buckets \<Rightarrow> string list" where
  "largestBucket chainMap =
     foldl (\<lambda>best k. if length best < length (members chainMap k) then members chainMap k else best)
       [] (Object_keys chainMap)"

definition buildEvolutionGroup ::
  "source_file \<Rightarrow> world \<Rightarrow> string list \<Rightarrow> nat \<Rightarrow> nat \<Rightarrow> string list option \<times> nat" where
  "buildEvolutionGroup f w pool minSize t =
     (case chainScan f w minSize [] pool t of
        (Inl grp, t1) \<Rightarrow> (Some grp, t1)
      | (Inr chainMap, t1) \<Rightarrow>
          (let best = largestBucket chainMap in (if best = [] then None else Some best, t1)))"

subsection \<open>Padding a group from the pool's tail\<close>

text \<open>
  The loop
  \<open>while (xs.length < count) { const pick = pool.pop(); if (!xs.includes(pick)) xs.push(pick); }\<close>
  pads the legendary group in \<open>startGame\<close> and the matches in
  \<open>findSameTypeFiller\<close>; in \<open>part_001\<close> the filler's loop has the extra guard
  \<open>&& pool.length\<close>. It returns the padded array and the pool it has popped from.

  On an empty pool \<open>pop()\<close> gives \<open>undefined\<close>. Without the guard the first
  \<open>undefined\<close> is pushed and every later one is found by \<open>includes\<close>, while the
  pool stays empty: if one member was missing the loop ends with \<open>undefined\<close> in
  the group and \<open>n.toLowerCase()\<close> throws a \<open>TypeError\<close> when \<open>startGame\<close> maps
  over the groups (nothing that runs in between can fail or loop); if more were
  missing the loop never ends.
\<close>

fun popUntil ::
  "bool \<Rightarrow> nat \<Rightarrow> string list \<Rightarrow> string list \<Rightarrow> failure + (string list \<times> string list)" where
  "popUntil guarded count' xs pool =
     (if count' \<le> length xs then Inr (xs, pool)
      else if pool = [] then
        (if guarded then Inr (xs, pool)
         else if count' \<le> Suc (length xs) then Inl TypeError else Inl Never_returns)
      else if last pool \<in> set xs then popUntil guarded count' xs (butlast pool)
      else popUntil guarded count' (xs @ [last pool]) (butlast pool))"

declare popUntil.simps [simp del]

text \<open>The \<open>for (const name of pool)\<close> loop of \<open>findSameTypeFiller\<close>.\<close>

fun fillerScan ::
  "source_file \<Rightarrow> world \<Rightarrow> string \<Rightarrow> nat \<Rightarrow> string list \<Rightarrow> string list \<Rightarrow> nat \<Rightarrow> string list \<times> nat" where
  "fillerScan f w targetType count' matches [] t = (matches, t)"
| "fillerScan f w targetType count' matches (n # rest) t =
     (let (m, t1) = fetchPokemonData f w n t;
          matches' = (if primaryType m = Some targetType then matches @ [n] else matches)
      in if count' \<le> length matches' then (matches', t1)
         else fillerScan f w targetType count' matches' rest t1)"

text \<open>
  \<open>findSameTypeFiller(pool, referenceName, count)\<close>; the result carries the pool,
  which the padding loop mutates.
\<close>

definition findSameTypeFiller ::
  "source_file \<Rightarrow> world \<Rightarrow> string list \<Rightarrow> string \<Rightarrow> nat \<Rightarrow> nat
     \<Rightarrow> failure + (string list \<times> string list \<times> nat)" where
  "findSameTypeFiller f w pool referenceName count' t =
     (let (meta, t1) = fetchPokemonData f w referenceName t in
      case primaryType meta of
        None \<Rightarrow> (let (s, t2) = sampleArray w pool count' t1 in Inr (s, pool, t2))
      | Some targetType \<Rightarrow>
          (let (matches, t2) = fillerScan f w targetType count' [] pool t1 in
           case popUntil (f = Part_001) count' matches pool of
             Inl e \<Rightarrow> Inl e
           | Inr (matches', pool') \<Rightarrow> Inr (matches', pool', t2)))"

section \<open>Assembling the board\<close>

text \<open>Step 1 of \<open>startGame\<close>: a type-based group.\<close>

definition typeStep ::
  "source_file \<Rightarrow> world \<Rightarrow> string list \<Rightarrow> nat \<Rightarrow> string list list \<times> string list \<times> nat" where
  "typeStep f w pool t =
     (case buildTypeGroup f w pool GROUP_SIZE t of
        (None, t1) \<Rightarrow> ([], pool, t1)
      | (Some typeGroup, t1) \<Rightarrow> ([typeGroup], removeFromPool pool typeGroup, t1))"

text \<open>
  Step 2: an evolution-family group, filled by \<open>findSameTypeFiller\<close> when it has
  fewer than four members. The filler is called on the pool from which
  \<open>evoGroup\<close> has not been removed yet. \<open>evoGroup[0]\<close> of an empty array is
  \<open>undefined\<close>, which the request URL spells \<open>undefined\<close>.
\<close>

definition evolutionStep ::
  "source_file \<Rightarrow> world \<Rightarrow> string list list \<Rightarrow> string list \<Rightarrow> nat
     \<Rightarrow> failure + (string list list \<times> string list \<times> nat)" where
  "evolutionStep f w groups pool t =
     (case buildEvolutionGroup f w pool GROUP_SIZE t of
        (None, t1) \<Rightarrow> Inr (groups, pool, t1)
      | (Some evoGroup, t1) \<Rightarrow>
          if length evoGroup < GROUP_SIZE then
            (case findSameTypeFiller f w pool
                    (case evoGroup of [] \<Rightarrow> ''undefined'' | r # _ \<Rightarrow> r)
                    (GROUP_SIZE - length evoGroup) t1 of
               Inl e \<Rightarrow> Inl e
             | Inr (filler, pool', t2) \<Rightarrow>
                 Inr (groups @ [evoGroup @ filler], removeFromPool pool' (evoGroup @ filler), t2))
          else Inr (groups @ [take GROUP_SIZE evoGroup],
                    removeFromPool pool (take GROUP_SIZE evoGroup), t1))"

text \<open>Step 3: the legendary group; \<open>legendaryNames\<close> / \<open>candidateLegends\<close>.\<close>

definition legendaryNames :: "source_file \<Rightarrow> string list" where
  "legendaryNames f =
     (case f of
        Script_js \<Rightarrow> [''articuno'', ''zapdos'', ''moltres'', ''mewtwo'', ''mew'']
      | Part_001 \<Rightarrow>
          [''articuno'', ''zapdos'', ''moltres'', ''mewtwo'', ''mew'', ''lugia'', ''ho-oh'',
           ''suicune'', ''entei'', ''raikou'', ''regirock'', ''regice'', ''registeel'',
           ''latias'', ''latios'', ''hoopa'', ''zacian'', ''zamazenta''])"

definition legendStep ::
  "source_file \<Rightarrow> string list list \<Rightarrow> string list \<Rightarrow> failure + (string list list \<times> string list)" where
  "legendStep f groups pool =
     (let legendGroup = take GROUP_SIZE (filter (\<lambda>n. n \<in> set pool) (legendaryNames f)) in
      if 2 \<le> length legendGroup then
        (case popUntil False GROUP_SIZE legendGroup pool of
           Inl e \<Rightarrow> Inl e
         | Inr (legendGroup', pool') \<Rightarrow>
             Inr (groups @ [legendGroup'], removeFromPool pool' legendGroup'))
      else Inr (groups, pool))"

text \<open>
  Step 4: \<open>while (groups.length < 4) { const g = await buildTypeGroup(pool,4) ||
  sampleArray(pool,4); groups.push(g); removeFromPool(pool, g); }\<close>
\<close>

function fillRemaining ::
  "source_file \<Rightarrow> world \<Rightarrow> string list list \<Rightarrow> string list \<Rightarrow> nat \<Rightarrow> string list list \<times> nat" where
  "fillRemaining f w groups pool t =
     (if length groups < MAX_GROUPS then
        (let (g, t1) = (case buildTypeGroup f w pool GROUP_SIZE t of
                          (Some g, t1) \<Rightarrow> (g, t1)
                        | (None, t1) \<Rightarrow> sampleArray w pool GROUP_SIZE t1)
         in fillRemaining f w (groups @ [g]) (removeFromPool pool g) t1)
      else (groups, t))"
  by pat_completeness auto
termination
  by (relation "measure (\<lambda>(f, w, groups, pool, t). MAX_GROUPS - length groups)") auto

declare fillRemaining.simps [simp del]

text \<open>The four steps in sequence: the \<open>groups\<close> array when step 4 has ended.\<close>

definition buildGroups ::
  "source_file \<Rightarrow> world \<Rightarrow> string list \<Rightarrow> nat \<Rightarrow> failure + (string list list \<times> nat)" where
  "buildGroups f w pool t =
     (let (groups1, pool1, t1) = typeStep f w pool t in
      case evolutionStep f w groups1 pool1 t1 of
        Inl e \<Rightarrow> Inl e
      | Inr (groups2, pool2, t2) \<Rightarrow>
          (case legendStep f groups2 pool2 of
             Inl e \<Rightarrow> Inl e
           | Inr (groups3, pool3) \<Rightarrow> Inr (fillRemaining f w groups3 pool3 t2)))"

definition GEN1 :: "string list" where
  "GEN1 =
    [''bulbasaur'', ''ivysaur'', ''venusaur'', ''charmander'', ''charmeleon'', ''charizard'',
     ''squirtle'', ''wartortle'', ''blastoise'', ''caterpie'', ''metapod'', ''butterfree'',
     ''weedle'', ''kakuna'', ''beedrill'', ''pidgey'', ''pidgeotto'', ''pidgeot'', ''rattata'',
     ''raticate'', ''pikachu'', ''raichu'', ''sandshrew'', ''sandslash'', ''nidoran-f'',
     ''nidorina'', ''nidoqueen'', ''nidoran-m'', ''nidorino'', ''nidoking'', ''clefairy'',
     ''clefable'', ''vulpix'', ''ninetales'', ''jigglypuff'', ''wigglytuff'', ''zubat'',
     ''golbat'', ''oddish'', ''gloom'', ''vileplume'', ''paras'', ''parasect'', ''venonat'',
     ''venomoth'', ''diglett'', ''dugtrio'', ''meowth'', ''persian'', ''psyduck'', ''golduck'',
     ''mankey'', ''primeape'', ''growlithe'', ''arcanine'', ''poliwag'', ''poliwhirl'',
     ''poliwrath'', ''abra'', ''kadabra'', ''alakazam'', ''machop'', ''machoke'', ''machamp'',
     ''bellsprout'', ''weepinbell'', ''victreebel'', ''tentacool'', ''tentacruel'', ''geodude'',
     ''graveler'', ''golem'', ''ponyta'', ''rapidash'', ''slowpoke'', ''slowbro'', ''magnemite'',
     ''magneton'', ''farfetchd'', ''doduo'', ''dodrio'', ''seel'', ''dewgong'', ''grimer'', ''muk'',
     ''shellder'', ''cloyster'', ''gastly'', ''haunter'', ''gengar'', ''onix'', ''drowzee'',
     ''hypno'', ''krabby'', ''kingler'', ''voltorb'', ''electrode'', ''exeggcute'', ''exeggutor'',
     ''cubone'', ''marowak'', ''hitmonlee'', ''hitmonchan'', ''lickitung'', ''koffing'',
     ''weezing'', ''rhyhorn'', ''rhydon'', ''chansey'', ''tangela'', ''kangaskhan'', ''horsea'',
     ''seadra'', ''goldeen'', ''seaking'', ''staryu'', ''starmie'', ''mr-mime'', ''scyther'',
     ''jynx'', ''electabuzz'', ''magmar'', ''pinsir'', ''tauros'', ''magikarp'', ''gyarados'',
     ''lapras'', ''ditto'', ''eevee'', ''vaporeon'', ''jolteon'', ''flareon'', ''porygon'',
     ''omanyte'', ''omastar'', ''kabuto'', ''kabutops'', ''aerodactyl'', ''snorlax'',
     ''articuno'', ''zapdos'', ''moltres'', ''dratini'', ''dragonair'', ''dragonite'', ''mewtwo'',
     ''mew'']"

definition MAX_GEN :: nat where "MAX_GEN = 7"

text \<open>
  The loop of \<open>getPoolForGens\<close> over the generations: a response that is not
  \<open>ok\<close> is skipped, a request that throws ends the loop in the \<open>catch\<close> block with
  the names pushed so far, and a listing pushes \<open>s.name.toLowerCase()\<close> for every
  entry with a name.
\<close>

fun poolLoop :: "world \<Rightarrow> nat list \<Rightarrow> string list \<Rightarrow> nat \<Rightarrow> string list \<times> nat" where
  "poolLoop w [] pool t = (pool, t)"
| "poolLoop w (g # gs) pool t =
     (case generation_endpoint w t g of
        Request_throws \<Rightarrow> (pool, Suc t)
      | Not_ok \<Rightarrow> poolLoop w gs pool (Suc t)
      | Species_list names \<Rightarrow>
          poolLoop w gs (pool @ map toLowerCase (filter (\<lambda>s. s \<noteq> []) names)) (Suc t))"

text \<open>
  \<open>getPoolForGens(fromGen, toGen)\<close> of \<open>part_001\<close>: the cached pool when there is
  one (an empty array counts), else the names listed, without repeats
  (\<open>Array.from(new Set(pool))\<close>), which are cached. The result is the pool, the
  cache and the clock.
\<close>

definition getPoolForGens ::
  "world \<Rightarrow> string list option \<Rightarrow> nat \<Rightarrow> nat \<Rightarrow> nat
     \<Rightarrow> string list \<times> string list option \<times> nat" where
  "getPoolForGens w poolCache fromGen toGen t =
     (case poolCache of
        Some cached \<Rightarrow> (cached, poolCache, t)
      | None \<Rightarrow>
          (let (pool, t1) = poolLoop w [fromGen..<Suc toGen] [] t;
               unique = js_set pool
           in (unique, Some unique, t1)))"

text \<open>
  How a call of \<open>startGame\<close> ends. \<open>Published\<close>: the \<open>try\<close> block has run to
  its end. \<open>Caught\<close>: an error was thrown and the \<open>catch\<close> block has reported
  it. Both carry the state the call leaves. \<open>Hangs\<close>: a loop never ends.
\<close>

datatype outcome = Published game | Caught failure game | Hangs

text \<open>The \<open>catch\<close> block: \<open>setStatus('Error generating game. ...')\<close>.\<close>

definition caught :: "failure \<Rightarrow> game \<Rightarrow> outcome" where
  "caught e g = (if e = Never_returns then Hangs else Caught e (g\<lparr>status := ErrorGenerating\<rparr>))"

text \<open>
  The end of \<open>startGame\<close>, once the groups are built. An error of the group
  builders surfaces before \<open>solutions\<close> is assigned, so the state is still the
  one \<open>resetState\<close> left. Otherwise the board is published, \<open>renderBoard()\<close> is
  called and, when it returns, the status announces that the game is ready.
\<close>

definition publishGroups ::
  "source_file \<Rightarrow> world \<Rightarrow> failure + (string list list \<times> nat) \<Rightarrow> outcome" where
  "publishGroups f w built =
     (case built of
        Inl e \<Rightarrow> caught e resetState
      | Inr (groups, t') \<Rightarrow>
          (let g = fst (publishBoard f w (map (map toLowerCase) groups) t')
           in case renderBoard f g of
                Inl e \<Rightarrow> caught e g
              | Inr g' \<Rightarrow> Published (g'\<lparr>status := GameReady\<rparr>)))"

text \<open>
  \<open>startGame\<close>, with the cache of \<open>part_001\<close> as it leaves it. \<open>script.js\<close>
  starts from \<open>GEN1.slice()\<close>; \<open>part_001\<close> starts from the pool of
  \<open>getPoolForGens(1, MAX_GEN)\<close>, throws on fewer than \<open>MAX_BOARD\<close> names and
  shuffles a copy.
\<close>

definition startGame ::
  "source_file \<Rightarrow> world \<Rightarrow> string list option \<Rightarrow> nat \<Rightarrow> outcome \<times> string list option" where
  "startGame f w poolCache t =
     (case f of
        Script_js \<Rightarrow> (publishGroups f w (buildGroups f w GEN1 t), poolCache)
      | Part_001 \<Rightarrow>
          (let (pool, poolCache', t0) = getPoolForGens w poolCache 1 MAX_GEN t
           in (if length pool < MAX_BOARD then caught InsufficientPool resetState
               else (let (candidatePool, t1) = shuffle w pool t0
                     in publishGroups f w (buildGroups f w candidatePool t1)),
               poolCache')))"

section \<open>Concrete inputs\<close>

text \<open>A world in which every lookup fails and \<open>Math.random()\<close> always returns 0.\<close>

definition offline :: world where
  "offline =
     \<lparr>math_random = (\<lambda>t. 0),
      pokemon_endpoint = (\<lambda>t n. Inl TransientFetchError),
      species_endpoint = (\<lambda>t n. Inl TransientFetchError),
      generation_endpoint = (\<lambda>t g. Request_throws)\<rparr>"

text \<open>
  A world in which the catalog answers for the Bulbasaur family only, with the data
  the catalog holds for it, and every other lookup is refused.
\<close>

definition bulbasaur_only :: world where
  "bulbasaur_only =
     \<lparr>math_random = (\<lambda>t. 0),
      pokemon_endpoint =
        (\<lambda>t n. if n \<in> set [''bulbasaur'', ''ivysaur'', ''venusaur'']
               then Inr [''grass'', ''poison''] else Inl NotFound),
      species_endpoint =
        (\<lambda>t n. Inr \<lparr>species_is_legendary = False,
                     species_generation = Some ''generation-i'',
                     species_evolution_chain =
                       Some ''https://pokeapi.co/api/v2/evolution-chain/1/''\<rparr>),
      generation_endpoint = (\<lambda>t g. Not_ok)\<rparr>"



text \<open>A solved partition and the board published from it.\<close>

definition demo_solutions :: "string list list" where
  "demo_solutions =
     [[''charmander'', ''vulpix'', ''growlithe'', ''ponyta''],
      [''eevee'', ''vaporeon'', ''jolteon'', ''flareon''],
      [''articuno'', ''zapdos'', ''moltres'', ''mewtwo''],
      [''pidgey'', ''rattata'', ''zubat'', ''geodude'']]"

definition demo_game :: game where
  "demo_game = fst (publishBoard Script_js offline demo_solutions 0)"

text \<open>The clicks and the submission that claim the group at the given positions.\<close>

definition claim :: "nat list \<Rightarrow> action list" where
  "claim positions = map CardClick positions @ [LockGroup]"

text \<open>
  Four cards of one generation with different primary types and evolution chains,
  none legendary, with the metadata \<open>fetchPokemonData\<close> builds for them.
\<close>

definition starter_cards :: "card list" where
  "starter_cards =
     [\<lparr>name = ''bulbasaur'',
       metadata = \<lparr>types = [''grass'', ''poison''], is_legendary = False,
                    generation = Some ''generation-i'',
                    evolution_chain = Some ''https://pokeapi.co/api/v2/evolution-chain/1/''\<rparr>,
       groupId = 0, locked = False\<rparr>,
      \<lparr>name = ''charmander'',
       metadata = \<lparr>types = [''fire''], is_legendary = False,
                    generation = Some ''generation-i'',
                    evolution_chain = Some ''https://pokeapi.co/api/v2/evolution-chain/2/''\<rparr>,
       groupId = 0, locked = False\<rparr>,
      \<lparr>name = ''squirtle'',
       metadata = \<lparr>types = [''water''], is_legendary = False,
                    generation = Some ''generation-i'',
                    evolution_chain = Some ''https://pokeapi.co/api/v2/evolution-chain/3/''\<rparr>,
       groupId = 0, locked = False\<rparr>,
      \<lparr>name = ''pikachu'',
       metadata = \<lparr>types = [''electric''], is_legendary = False,
                    generation = Some ''generation-i'',
                    evolution_chain = Some ''https://pokeapi.co/api/v2/evolution-chain/10/''\<rparr>,
       groupId = 0, locked = False\<rparr>]"

text \<open>
  Board states reached from \<open>demo_game\<close> in \<open>script.js\<close>; the second group lies
  at positions 3 to 6.
\<close>

definition demo_full :: game where
  "demo_full = run Script_js (map CardClick [3, 4, 5, 6]) demo_game"

definition demo_mixed :: game where
  "demo_mixed = run Script_js (map CardClick [0, 1, 2, 3]) demo_game"

definition demo_claimed :: game where
  "demo_claimed = run Script_js (claim [3, 4, 5, 6]) demo_game"

text \<open>
  A whole game: the four groups are claimed one after the other, with the
  selection cleared in between.
\<close>

definition demo_sequence :: "action list" where
  "demo_sequence =
     claim [3, 4, 5, 6] @ [ClearSelection] @ claim [7, 8, 9, 10] @ [ClearSelection]
       @ claim [11, 12, 13, 14] @ [ClearSelection] @ claim [0, 1, 2, 15]"

definition demo_all_claimed :: game where
  "demo_all_claimed = run Script_js demo_sequence demo_game"


section \<open>Properties used in the proofs\<close>

text \<open>No name is in two groups.\<close>

fun groups_apart :: "string list list \<Rightarrow> bool" where
  "groups_apart [] = True"
| "groups_apart (g # gs) = ((\<forall>h \<in> set gs. set g \<inter> set h = {}) \<and> groups_apart gs)"

text \<open>
  What holds of \<open>groups\<close> and \<open>pool\<close> between the steps of \<open>startGame\<close>: the pool
  has no repeated name, every group built so far has four entries, the pool still
  holds enough names for the groups that are missing, no name is in two groups or
  in a group and in the pool, and every name has the property \<open>P\<close> that the
  names of the starting pool have.
\<close>

definition assembly_inv :: "(string \<Rightarrow> bool) \<Rightarrow> string list list \<Rightarrow> string list \<Rightarrow> bool" where
  "assembly_inv P groups pool =
     (distinct pool \<and> MAX_BOARD \<le> length pool + GROUP_SIZE * length groups
      \<and> (\<forall>g \<in> set groups. length g = GROUP_SIZE)
      \<and> groups_apart groups
      \<and> (\<forall>g \<in> set groups. set g \<inter> set pool = {})
      \<and> (\<forall>g \<in> set groups. \<forall>n \<in> set g. P n)
      \<and> (\<forall>n \<in> set pool. P n))"

text \<open>A name that \<open>toLowerCase\<close> leaves as it is.\<close>

definition lowercase :: "string \<Rightarrow> bool" where
  "lowercase n = (toLowerCase n = n)"



text \<open>
  A cached pool has no repeated name and holds lowercase names: the cache only ever
  holds the values of a \<open>Set\<close> of \<open>toLowerCase\<close> results.
\<close>

definition cache_ok :: "string list option \<Rightarrow> bool" where
  "cache_ok poolCache =
     (case poolCache of
        None \<Rightarrow> True
      | Some cached \<Rightarrow> distinct cached \<and> list_all lowercase cached)"

definition buckets_ok :: "(string \<Rightarrow> bool) \<Rightarrow> buckets \<Rightarrow> bool" where
  "buckets_ok P b = (\<forall>k ms. (k, ms) \<in> set b \<longrightarrow> (\<forall>n \<in> set ms. P n))"

text \<open>
  Every unlocked card still finds in \<open>solutions\<close> the index it was dealt as its
  \<open>groupId\<close>.
\<close>

definition tracks_groups :: "game \<Rightarrow> bool" where
  "tracks_groups g =
     list_all (\<lambda>c. locked c \<or> solutionIndex (solutions g) (name c) = groupId c) (cardData g)"

text \<open>The unlocked cards dealt from group \<open>k\<close>.\<close>

definition open_cards :: "int \<Rightarrow> card list \<Rightarrow> card list" where
  "open_cards k cs = filter (\<lambda>c. \<not> locked c \<and> groupId c = k) cs"

text \<open>
  What holds in every state of a session: the cards track their groups, the name
  of a locked card is found in no solution group, no name is in two solution
  groups, no group has more than four unlocked cards, and the selection holds
  distinct board positions, either of unlocked cards or (in \<open>script.js\<close>, where
  the selection outlives a correct guess) of the four cards just locked.
\<close>

definition session_inv :: "game \<Rightarrow> bool" where
  "session_inv g =
     (tracks_groups g
      \<and> list_all (\<lambda>c. locked c \<longrightarrow> solutionIndex (solutions g) (name c) = -1) (cardData g)
      \<and> groups_apart (solutions g)
      \<and> (\<forall>k. length (open_cards k (cardData g)) \<le> GROUP_SIZE)
      \<and> distinct (selected g)
      \<and> list_all (\<lambda>i. i < length (cardData g)) (selected g)
      \<and> (list_all (\<lambda>i. \<not> locked (cardData g ! i)) (selected g)
         \<or> length (selected g) = GROUP_SIZE
           \<and> list_all (\<lambda>i. locked (cardData g ! i)) (selected g)))"

text \<open>No solution index is found for more than four entries of the solutions.\<close>

definition groups_of_four :: "string list list \<Rightarrow> bool" where
  "groups_of_four sols =
     (\<forall>k. length (filter (\<lambda>n. solutionIndex sols n = k) (concat sols)) \<le> GROUP_SIZE)"

section \<open>Shuffling and publishing\<close>

lemma shuffle_from_mset: "k < length a \<Longrightarrow> mset (fst (shuffle_from w k a t)) = mset a"
proof (induction k arbitrary: a t)
  case 0 then show ?case by simp
next
  case (Suc k)
  have "math_random w t mod (Suc k + 1) < Suc k + 1" by (rule mod_less_divisor) simp
  then have j: "math_random w t mod (Suc k + 1) < length a" using Suc.prems by linarith
  show ?case using Suc.prems j
    by (simp add: Let_def Suc.IH mset_swap)
qed

lemma shuffle_mset: "mset (fst (shuffle w a t)) = mset a"
  by (cases a) (simp_all add: shuffle_def shuffle_from_mset)

lemma shuffle_length: "length (fst (shuffle w a t)) = length a"
  using shuffle_mset[of w a t] by (metis mset_eq_length)

lemma shuffle_set: "set (fst (shuffle w a t)) = set a"
  using shuffle_mset[of w a t] by (metis mset_eq_setD)

lemma shuffle_distinct: "distinct (fst (shuffle w a t)) = distinct a"
  using shuffle_mset[of w a t] by (metis mset_eq_imp_distinct_iff)

lemma fetchAll_length: "length (fst (fetchAll f w ns t)) = length ns"
proof (induction ns arbitrary: t)
  case Nil then show ?case by simp
next
  case (Cons n ns)
  obtain m t1 where a: "fetchPokemonData f w n t = (m, t1)" by (cases "fetchPokemonData f w n t")
  obtain ms t2 where b: "fetchAll f w ns t1 = (ms, t2)" by (cases "fetchAll f w ns t1")
  have "length ms = length ns" using Cons.IH[of t1] b by simp
  then show ?case using a b by simp
qed

lemma publishBoard_names: "map name (cardData (fst (publishBoard f w sols t))) = fst (shuffle w (concat sols) t)"
proof -
  obtain sh t1 where a: "shuffle w (concat sols) t = (sh, t1)" by (cases "shuffle w (concat sols) t")
  obtain ms t2 where b: "fetchAll f w sh t1 = (ms, t2)" by (cases "fetchAll f w sh t1")
  have l: "length ms = length sh" using fetchAll_length[of f w sh t1] b by simp
  have "map name (map2 (\<lambda>n m. \<lparr>name = n, metadata = m, groupId = solutionIndex sols n, locked = False\<rparr>) sh ms) = sh"
    using l[symmetric] by (induction sh ms rule: list_induct2) auto
  then show ?thesis using a b by (simp add: publishBoard_def resetState_def)
qed

lemma publishBoard_length:
  "length (cardData (fst (publishBoard f w sols t))) = length (concat sols)"
proof -
  have "length (map name (cardData (fst (publishBoard f w sols t)))) = length (fst (shuffle w (concat sols) t))"
    by (simp only: publishBoard_names)
  then show ?thesis by (simp add: shuffle_length)
qed

text \<open>
  Claim C6. When the flattened solution holds sixteen distinct names, the card names
  of the published board are a permutation of them: the board has sixteen cards
  and every name is at exactly one board position, whatever \<open>Math.random()\<close>
  returns.
\<close>

theorem shuffle_bijection:
  assumes "distinct (concat sols)" and "length (concat sols) = MAX_BOARD"
  shows "mset (map name (cardData (fst (publishBoard f w sols t)))) = mset (concat sols)
       \<and> length (cardData (fst (publishBoard f w sols t))) = MAX_BOARD
       \<and> (\<forall>x \<in> set (concat sols).
             \<exists>!i. i < MAX_BOARD \<and> name (cardData (fst (publishBoard f w sols t)) ! i) = x)"
proof -
  let ?cs = "cardData (fst (publishBoard f w sols t))"
  let ?sh = "fst (shuffle w (concat sols) t)"
  have n: "map name ?cs = ?sh" by (rule publishBoard_names)
  have m: "mset (map name ?cs) = mset (concat sols)" by (simp add: n shuffle_mset)
  have l: "length ?cs = MAX_BOARD" using assms(2) by (simp add: publishBoard_length)
  have d: "distinct (map name ?cs)" using assms(1) by (simp add: n shuffle_distinct)
  have s: "set (map name ?cs) = set (concat sols)" by (simp add: n shuffle_set)
  have "\<forall>x \<in> set (concat sols). \<exists>!i. i < MAX_BOARD \<and> name (?cs ! i) = x"
  proof
    fix x assume "x \<in> set (concat sols)"
    then have "x \<in> set (map name ?cs)" using s by simp
    then obtain i where i: "i < length (map name ?cs)" "map name ?cs ! i = x"
      by (meson in_set_conv_nth)
    show "\<exists>!i. i < MAX_BOARD \<and> name (?cs ! i) = x"
    proof (rule ex1I[of _ i])
      show "i < MAX_BOARD \<and> name (?cs ! i) = x" using i l by simp
    next
      fix k assume k: "k < MAX_BOARD \<and> name (?cs ! k) = x"
      then have "map name ?cs ! k = map name ?cs ! i" using i l by simp
      moreover have "k < length (map name ?cs)" "i < length (map name ?cs)" using k i l by simp_all
      ultimately show "k = i" using nth_eq_iff_index_eq[OF d] by blast
    qed
  qed
  then show ?thesis using m l by simp
qed

theorem shuffle_bijection_witness:
  "distinct (concat demo_solutions) \<and> length (concat demo_solutions) = MAX_BOARD
     \<and> mset (map name (cardData demo_game)) = mset (concat demo_solutions)
     \<and> length (cardData demo_game) = MAX_BOARD
     \<and> (\<exists>!i. i < MAX_BOARD \<and> name (cardData demo_game ! i) = ''eevee'')"
proof -
  have d: "distinct (concat demo_solutions)" by (simp add: demo_solutions_def)
  have l: "length (concat demo_solutions) = MAX_BOARD"
    by (simp add: demo_solutions_def MAX_BOARD_def MAX_GROUPS_def GROUP_SIZE_def)
  have e: "''eevee'' \<in> set (concat demo_solutions)" by (simp add: demo_solutions_def)
  show ?thesis
    using d l e shuffle_bijection[OF d l, of Script_js offline 0] unfolding demo_game_def
    by blast
qed

section \<open>Selection\<close>

text \<open>
  Claim C7. With four positions selected, a click on an unlocked position that is
  not selected is refused as \<open>SelectionFull\<close>: the selection, the cards and the
  solutions stay as they were. A click on a locked card changes nothing, whatever
  the selection holds (the lock is tested first, so a locked fifth card is ignored
  rather than refused).
\<close>

theorem onCardClick_full_or_locked:
  "(length (selected g) = GROUP_SIZE \<and> idx < length (cardData g)
      \<and> \<not> locked (cardData g ! idx) \<and> idx \<notin> set (selected g)
     \<longrightarrow> fst (onCardClick idx g) = SelectionFull
         \<and> selected (snd (onCardClick idx g)) = selected g
         \<and> cardData (snd (onCardClick idx g)) = cardData g
         \<and> solutions (snd (onCardClick idx g)) = solutions g)
   \<and> (idx < length (cardData g) \<and> locked (cardData g ! idx)
     \<longrightarrow> onCardClick idx g = (Ignored_Locked, g))"
  by (simp add: onCardClick_def)

theorem onCardClick_full_or_locked_witness:
  "length (selected demo_full) = GROUP_SIZE \<and> \<not> locked (cardData demo_full ! 0)
     \<and> 0 \<notin> set (selected demo_full)
     \<and> fst (onCardClick 0 demo_full) = SelectionFull
     \<and> selected (snd (onCardClick 0 demo_full)) = selected demo_full
     \<and> locked (cardData demo_claimed ! 3)
     \<and> onCardClick 3 demo_claimed = (Ignored_Locked, demo_claimed)"
proof -
  have full: "length (selected demo_full) = GROUP_SIZE \<and> 0 < length (cardData demo_full)
      \<and> \<not> locked (cardData demo_full ! 0) \<and> 0 \<notin> set (selected demo_full)"
    by code_simp
  have lock: "3 < length (cardData demo_claimed) \<and> locked (cardData demo_claimed ! 3)"
    by code_simp
  show ?thesis
    using full lock onCardClick_full_or_locked[of demo_full 0]
      onCardClick_full_or_locked[of demo_claimed 3]
    by blast
qed

section \<open>Locking\<close>

lemma lockCards_length: "length (lockCards sel cs) = length cs"
  unfolding lockCards_def by (induction sel arbitrary: cs) simp_all

lemma lockCards_locked:
  "i < length cs \<Longrightarrow> locked (lockCards sel cs ! i) = (locked (cs ! i) \<or> i \<in> set sel)"
  unfolding lockCards_def
proof (induction sel arbitrary: cs)
  case Nil then show ?case by simp
next
  case (Cons a sel)
  let ?cs = "cs[a := (cs ! a)\<lparr>locked := True\<rparr>]"
  have l: "i < length ?cs" using Cons.prems by simp
  have e: "locked (?cs ! i) = (locked (cs ! i) \<or> i = a)"
    using Cons.prems by (cases "i = a") simp_all
  show ?case using Cons.IH[OF l] e by auto
qed

lemma lockCards_name:
  "i < length cs \<Longrightarrow> name (lockCards sel cs ! i) = name (cs ! i) \<and> groupId (lockCards sel cs ! i) = groupId (cs ! i)
     \<and> metadata (lockCards sel cs ! i) = metadata (cs ! i)"
  unfolding lockCards_def
proof (induction sel arbitrary: cs)
  case Nil then show ?case by simp
next
  case (Cons a sel)
  let ?cs = "cs[a := (cs ! a)\<lparr>locked := True\<rparr>]"
  have l: "i < length ?cs" using Cons.prems by simp
  have e: "name (?cs ! i) = name (cs ! i) \<and> groupId (?cs ! i) = groupId (cs ! i) \<and> metadata (?cs ! i) = metadata (cs ! i)"
    using Cons.prems by (cases "i = a") simp_all
  show ?case using Cons.IH[OF l] e by simp
qed

lemma step_length: "length (cardData (step f a g)) = length (cardData g)"
  by (cases a; cases f)
    (simp_all add: onCardClick_def lockSelection_def renderBoard_def updateProgress_def
      clearSelection_def revealAnswers_def checkWin_def lockCards_length Let_def)

lemma step_locked:
  "i < length (cardData g) \<Longrightarrow> locked (cardData g ! i) \<Longrightarrow> locked (cardData (step f a g) ! i)"
  by (cases a; cases f)
    (simp_all add: onCardClick_def lockSelection_def renderBoard_def updateProgress_def
      clearSelection_def revealAnswers_def checkWin_def lockCards_locked Let_def)

text \<open>
  Claim C10. Within a session, that is under every sequence of card clicks, guess
  submissions, clears and reveals, a card that is locked stays locked (and the
  board keeps its cards).
\<close>

theorem lock_monotone:
  "i < length (cardData g) \<Longrightarrow> locked (cardData g ! i) \<Longrightarrow>
     i < length (cardData (run f acts g)) \<and> locked (cardData (run f acts g) ! i)"
  unfolding run_def
proof (induction acts arbitrary: g)
  case Nil then show ?case by simp
next
  case (Cons a acts)
  have "i < length (cardData (step f a g))" "locked (cardData (step f a g) ! i)"
    using Cons.prems by (simp_all add: step_length step_locked)
  then show ?case using Cons.IH[of "step f a g"] by simp
qed

theorem lock_monotone_witness:
  "3 < length (cardData demo_claimed) \<and> locked (cardData demo_claimed ! 3)
     \<and> locked (cardData (run Script_js
                             ([CardClick 3, ClearSelection, Reveal] @ claim [0, 1, 2, 7]
                                @ claim [8, 9, 10] @ [ClearSelection] @ claim [7, 8, 9, 10])
                             demo_claimed) ! 3)
     \<and> locked (cardData (run Part_001
                             ([CardClick 3, ClearSelection, Reveal] @ claim [0, 1, 2, 7]
                                @ claim [8, 9, 10] @ [ClearSelection] @ claim [7, 8, 9, 10])
                             demo_claimed) ! 3)"
proof -
  have a: "3 < length (cardData demo_claimed)" by code_simp
  have b: "locked (cardData demo_claimed ! 3)" by code_simp
  show ?thesis using a b lock_monotone[OF a b, of Script_js] lock_monotone[OF a b, of Part_001]
    by simp
qed

lemma js_set_set: "set (js_set xs) = set xs"
  by (induction xs rule: js_set.induct) auto

lemma js_set_distinct: "distinct (js_set xs)"
  by (induction xs rule: js_set.induct) (auto simp: js_set_set)

lemma js_set_length: "length (js_set xs) = card (set xs)"
  using distinct_card[OF js_set_distinct, of xs] by (simp add: js_set_set)

lemma lockedCount_all: "(lockedCount cs = length cs) = (\<forall>c \<in> set cs. locked c)"
proof -
  have "length (filter locked cs) + length (filter (\<lambda>c. \<not> locked c) cs) = length cs"
    by (rule sum_length_filter_compl)
  then have "(lockedCount cs = length cs) = (filter (\<lambda>c. \<not> locked c) cs = [])"
    by (auto simp: lockedCount_def)
  then show ?thesis by (auto simp: filter_empty_conv)
qed

subsection \<open>The win\<close>

text \<open>
  In \<open>part_001\<close>, on a board of sixteen cards that does not show the win yet, an
  event leaves the state won exactly when it is a guess judged correct after which
  all sixteen cards are locked, and \<open>checkWin\<close> on a board with fifteen locked cards
  does not announce the win.
\<close>

lemma part_001_win_iff_all_locked:
  "length (cardData g) = MAX_BOARD \<and> status g \<noteq> Congratulations \<longrightarrow>
     ((status (step Part_001 a g) = Congratulations) =
        (a = LockGroup \<and> (\<exists>gid. fst (lockSelection Part_001 g) = Correct gid)
          \<and> (\<forall>c \<in> set (cardData (step Part_001 a g)). locked c)))
     \<and> (lockedCount (cardData g) = 15 \<longrightarrow> status (checkWin g) \<noteq> Congratulations)"
proof (rule impI)
  assume h: "length (cardData g) = MAX_BOARD \<and> status g \<noteq> Congratulations"
  have fifteen: "lockedCount (cardData g) = 15 \<longrightarrow> status (checkWin g) \<noteq> Congratulations"
    using h by (simp add: checkWin_def MAX_BOARD_def MAX_GROUPS_def GROUP_SIZE_def)
  have "(status (step Part_001 a g) = Congratulations) =
        (a = LockGroup \<and> (\<exists>gid. fst (lockSelection Part_001 g) = Correct gid)
          \<and> (\<forall>c \<in> set (cardData (step Part_001 a g)). locked c))"
  proof (cases a)
    case (CardClick i)
    then show ?thesis using h by (simp add: onCardClick_def)
  next
    case ClearSelection
    then show ?thesis by (simp add: clearSelection_def)
  next
    case Reveal
    then show ?thesis by (simp add: revealAnswers_def)
  next
    case LockGroup
    let ?cs = "lockCards (selected g) (cardData g)"
    have l: "length ?cs = MAX_BOARD" using h by (simp add: lockCards_length)
    have "(lockedCount ?cs = MAX_BOARD) = (\<forall>c \<in> set ?cs. locked c)"
      using lockedCount_all[of ?cs] l by simp
    then show ?thesis using LockGroup h
      by (simp add: lockSelection_def renderBoard_def updateProgress_def checkWin_def Let_def)
  qed
  then show "((status (step Part_001 a g) = Congratulations) =
        (a = LockGroup \<and> (\<exists>gid. fst (lockSelection Part_001 g) = Correct gid)
          \<and> (\<forall>c \<in> set (cardData (step Part_001 a g)). locked c)))
     \<and> (lockedCount (cardData g) = 15 \<longrightarrow> status (checkWin g) \<noteq> Congratulations)"
    using fifteen by simp
qed

text \<open>
  In \<open>script.js\<close> no event writes the status of the win: \<open>checkWin()\<close> is called
  only after \<open>renderBoard()\<close> has returned, and it never returns.
\<close>

lemma script_js_step_never_wins:
  "status g \<noteq> Congratulations \<Longrightarrow> status (step Script_js a g) \<noteq> Congratulations"
  by (cases a)
    (simp_all add: onCardClick_def lockSelection_def renderBoard_def updateProgress_def
      clearSelection_def revealAnswers_def Let_def)

lemma script_js_run_never_wins:
  "status g \<noteq> Congratulations \<Longrightarrow> status (run Script_js acts g) \<noteq> Congratulations"
  unfolding run_def by (induction acts arbitrary: g) (simp_all add: script_js_step_never_wins)

text \<open>
  Claim C5 fails on \<open>script.js\<close>. The claim says that the state becomes won when
  all sixteen cards are locked. In \<open>script.js\<close> the four groups of the demo board
  are claimed one after the other, each guess is judged correct and all sixteen
  cards end locked, but the status stays at the report of the last correct guess,
  and no further event changes that. The same events in \<open>part_001\<close> end with the
  win announced.
\<close>

theorem all_locked_without_win:
  "length (cardData demo_all_claimed) = MAX_BOARD
   \<and> list_all locked (cardData demo_all_claimed)
   \<and> lockedCount (cardData demo_all_claimed) = MAX_BOARD
   \<and> progress demo_all_claimed
       = [GroupCorrect 2, GroupCorrect 3, GroupCorrect 4, GroupCorrect 1]
   \<and> status demo_all_claimed = CorrectLocked
   \<and> (\<forall>acts. status (run Script_js acts demo_all_claimed) \<noteq> Congratulations)
   \<and> (\<forall>acts. status (run Script_js acts demo_game) \<noteq> Congratulations)
   \<and> status (run Part_001 demo_sequence demo_game) = Congratulations"
proof -
  have a: "length (cardData demo_all_claimed) = MAX_BOARD" by code_simp
  have b: "list_all locked (cardData demo_all_claimed)" by code_simp
  have c: "lockedCount (cardData demo_all_claimed) = MAX_BOARD" by code_simp
  have d: "progress demo_all_claimed
      = [GroupCorrect 2, GroupCorrect 3, GroupCorrect 4, GroupCorrect 1]" by code_simp
  have e: "status demo_all_claimed = CorrectLocked" by code_simp
  have s0: "status demo_game \<noteq> Congratulations" by code_simp
  have e': "status demo_all_claimed \<noteq> Congratulations" using e by simp
  have n: "\<forall>acts. status (run Script_js acts demo_all_claimed) \<noteq> Congratulations"
    using script_js_run_never_wins[OF e'] by blast
  have n0: "\<forall>acts. status (run Script_js acts demo_game) \<noteq> Congratulations"
    using script_js_run_never_wins[OF s0] by blast
  have p: "status (run Part_001 demo_sequence demo_game) = Congratulations" by code_simp
  show ?thesis using a b c d e n n0 p by blast
qed

subsection \<open>The invariant of a session\<close>

lemma findIndex_ge: "-1 \<le> findIndex P xs"
  by (induction xs) (simp_all add: Let_def)

lemma findIndex_none: "\<forall>x \<in> set xs. \<not> P x \<Longrightarrow> findIndex P xs = -1"
  by (induction xs) simp_all

lemma findIndex_update:
  "\<not> P y \<Longrightarrow> findIndex P xs \<noteq> int g \<Longrightarrow> findIndex P (xs[g := y]) = findIndex P xs"
proof (induction xs arbitrary: g)
  case Nil then show ?case by simp
next
  case (Cons x xs)
  show ?case
  proof (cases g)
    case 0
    then show ?thesis using Cons.prems by (auto simp: Let_def split: if_splits)
  next
    case (Suc g')
    show ?thesis
    proof (cases "P x")
      case True then show ?thesis using Suc by simp
    next
      case False
      have "findIndex P xs \<noteq> int g'" using Cons.prems(2) False Suc by (auto simp: Let_def split: if_splits)
      from Cons.IH[OF Cons.prems(1) this] show ?thesis using False Suc by simp
    qed
  qed
qed

lemma groups_apart_clear: "groups_apart sols \<Longrightarrow> groups_apart (sols[k := []])"
proof (induction sols arbitrary: k)
  case Nil then show ?case by simp
next
  case (Cons g gs)
  show ?case
  proof (cases k)
    case 0
    then show ?thesis using Cons.prems by simp
  next
    case (Suc k')
    have sub: "set (gs[k' := []]) \<subseteq> insert [] (set gs)" by (rule set_update_subset_insert)
    have "\<forall>h \<in> set (gs[k' := []]). set g \<inter> set h = {}"
    proof
      fix h assume "h \<in> set (gs[k' := []])"
      then have "h = [] \<or> h \<in> set gs" using sub by auto
      then show "set g \<inter> set h = {}" using Cons.prems by auto
    qed
    then show ?thesis using Suc Cons.prems Cons.IH[of k'] by simp
  qed
qed

lemma findIndex_cleared:
  "groups_apart sols \<Longrightarrow> findIndex (\<lambda>grp. n \<in> set grp) sols = int k \<Longrightarrow>
     findIndex (\<lambda>grp. n \<in> set grp) (sols[k := []]) = -1"
proof (induction sols arbitrary: k)
  case Nil then show ?case by simp
next
  case (Cons g gs)
  show ?case
  proof (cases "n \<in> set g")
    case True
    then have k: "k = 0" using Cons.prems(2) by simp
    have "\<forall>h \<in> set gs. \<not> n \<in> set h" using Cons.prems(1) True by auto
    then have "findIndex (\<lambda>grp. n \<in> set grp) gs = -1" by (rule findIndex_none)
    then show ?thesis using k by simp
  next
    case False
    let ?r = "findIndex (\<lambda>grp. n \<in> set grp) gs"
    have r: "\<not> ?r < 0" "int k = ?r + 1"
      using Cons.prems(2) False by (auto simp: Let_def split: if_splits)
    define k' where "k' = k - 1"
    have k: "k = Suc k'" "?r = int k'" using r by (cases k; simp add: k'_def)+
    have "findIndex (\<lambda>grp. n \<in> set grp) (gs[k' := []]) = -1"
      using Cons.IH[OF _ k(2)] Cons.prems(1) by simp
    then show ?thesis using False k(1) by simp
  qed
qed

lemma open_cards_card:
  "length (open_cards k cs) = card {i. i < length cs \<and> \<not> locked (cs ! i) \<and> groupId (cs ! i) = k}"
  unfolding open_cards_def by (rule length_filter_conv_card)

lemma open_cards_lock: "length (open_cards k (lockCards sel cs)) \<le> length (open_cards k cs)"
proof -
  have "{i. i < length (lockCards sel cs) \<and> \<not> locked (lockCards sel cs ! i) \<and> groupId (lockCards sel cs ! i) = k}
      \<subseteq> {i. i < length cs \<and> \<not> locked (cs ! i) \<and> groupId (cs ! i) = k}"
    by (auto simp: lockCards_length lockCards_locked lockCards_name)
  then show ?thesis unfolding open_cards_card by (intro card_mono) simp_all
qed

lemma all_of_group_selected:
  assumes "length (open_cards k cs) \<le> GROUP_SIZE" "distinct sel" "length sel = GROUP_SIZE"
    and "\<forall>i \<in> set sel. i < length cs \<and> \<not> locked (cs ! i) \<and> groupId (cs ! i) = k"
    and "j < length cs" "\<not> locked (cs ! j)" "groupId (cs ! j) = k"
  shows "j \<in> set sel"
proof (rule ccontr)
  assume n: "j \<notin> set sel"
  let ?S = "{i. i < length cs \<and> \<not> locked (cs ! i) \<and> groupId (cs ! i) = k}"
  have "insert j (set sel) \<subseteq> ?S" using assms(4-7) by auto
  then have "card (insert j (set sel)) \<le> card ?S" by (intro card_mono) simp_all
  moreover have "card (insert j (set sel)) = Suc (length sel)"
    using n assms(2) by (simp add: distinct_card)
  ultimately show False using assms(1,3) by (simp add: open_cards_card)
qed

lemma single_index:
  assumes "length (js_set (map h sel)) = 1" "i \<in> set sel"
  shows "h i = hd (js_set (map h sel))"
proof -
  obtain v where v: "js_set (map h sel) = [v]" using assms(1) by (cases "js_set (map h sel)") auto
  have "h i \<in> set (js_set (map h sel))" using assms(2) by (simp add: js_set_set)
  then show ?thesis using v by simp
qed

text \<open>The state a correct guess leaves, in either file.\<close>

lemma lockSelection_correct_state:
  assumes "length (selected g) = GROUP_SIZE" "\<forall>i \<in> set (selected g). i < length (cardData g)"
    and "length (js_set (map (\<lambda>i. solutionIndex (solutions g) (name (cardData g ! i))) (selected g))) = 1"
    and "gid = hd (js_set (map (\<lambda>i. solutionIndex (solutions g) (name (cardData g ! i))) (selected g)))"
  shows "cardData (snd (lockSelection f g)) = lockCards (selected g) (cardData g)
       \<and> solutions (snd (lockSelection f g)) = clearSolution gid (solutions g)
       \<and> selected (snd (lockSelection f g)) = (case f of Script_js \<Rightarrow> selected g | Part_001 \<Rightarrow> [])"
proof -
  have v: "\<not> (\<exists>i \<in> set (selected g). length (cardData g) \<le> i)" using assms(2) by auto
  show ?thesis using assms(1,3,4) v
    by (cases f)
      (simp_all add: lockSelection_def renderBoard_def updateProgress_def checkWin_def Let_def comp_def)
qed

lemma session_inv_report:
  "session_inv (g\<lparr>progress := pr, status := st\<rparr>) = session_inv g"
  by (simp add: session_inv_def tracks_groups_def)

lemma session_inv_select:
  assumes "session_inv g" "distinct sel"
    and "\<forall>i \<in> set sel. i < length (cardData g) \<and> \<not> locked (cardData g ! i)"
  shows "session_inv (g\<lparr>selected := sel\<rparr>)"
  using assms by (simp add: session_inv_def tracks_groups_def list_all_iff)

lemma session_inv_lock:
  assumes "session_inv g" shows "session_inv (snd (lockSelection f g))"
proof -
  let ?sel = "selected g" and ?cs = "cardData g" and ?sols = "solutions g"
  let ?h = "\<lambda>i. solutionIndex ?sols (name (?cs ! i))"
  have tr: "\<forall>j < length ?cs. locked (?cs ! j) \<or> solutionIndex ?sols (name (?cs ! j)) = groupId (?cs ! j)"
    using assms by (simp add: session_inv_def tracks_groups_def list_all_length)
  have lk: "\<forall>j < length ?cs. locked (?cs ! j) \<longrightarrow> solutionIndex ?sols (name (?cs ! j)) = -1"
    using assms by (simp add: session_inv_def list_all_length)
  have ap: "groups_apart ?sols" using assms by (simp add: session_inv_def)
  have cnt: "\<forall>k. length (open_cards k ?cs) \<le> GROUP_SIZE" using assms by (simp add: session_inv_def)
  have ds: "distinct ?sel" using assms by (simp add: session_inv_def)
  have vs: "\<forall>i \<in> set ?sel. i < length ?cs"
    using assms by (simp add: session_inv_def list_all_iff)
  have alt: "(\<forall>i \<in> set ?sel. \<not> locked (?cs ! i)) \<or> (\<forall>i \<in> set ?sel. locked (?cs ! i))"
    using assms by (auto simp: session_inv_def list_all_iff)
  show ?thesis
  proof (cases "length ?sel = GROUP_SIZE \<and> length (js_set (map ?h ?sel)) = 1")
    case False
    have v: "\<not> (\<exists>i \<in> set ?sel. length ?cs \<le> i)" using vs by auto
    have "snd (lockSelection f g)
        = g\<lparr>progress := progress (snd (lockSelection f g)), status := status (snd (lockSelection f g))\<rparr>"
      using False v by (simp add: lockSelection_def Let_def comp_def)
    then show ?thesis using assms session_inv_report by metis
  next
    case True
    define gid where "gid = hd (js_set (map ?h ?sel))"
    define cs' where "cs' = lockCards ?sel ?cs"
    define sols' where "sols' = clearSolution gid ?sols"
    define g' where "g' = snd (lockSelection f g)"
    have st: "cardData g' = cs'" "solutions g' = sols'"
        "selected g' = (case f of Script_js \<Rightarrow> ?sel | Part_001 \<Rightarrow> [])"
      using lockSelection_correct_state[OF _ vs _ gid_def, of f] True
      by (simp_all add: g'_def cs'_def sols'_def)
    have len: "length cs' = length ?cs" by (simp add: cs'_def lockCards_length)
    have idx: "\<forall>i \<in> set ?sel. ?h i = gid"
      using single_index[of ?h ?sel] True by (simp add: gid_def)
    have ne: "?sel \<noteq> []" using True by (auto simp: GROUP_SIZE_def)
    have open_sel: "0 \<le> gid \<longrightarrow> (\<forall>i \<in> set ?sel. \<not> locked (?cs ! i))"
    proof
      assume p: "0 \<le> gid"
      have "\<not> (\<forall>i \<in> set ?sel. locked (?cs ! i))"
      proof
        assume al: "\<forall>i \<in> set ?sel. locked (?cs ! i)"
        obtain i where i: "i \<in> set ?sel" using ne by (cases ?sel) auto
        have "?h i = -1" using lk vs al i by auto
        then show False using idx i p by auto
      qed
      then show "\<forall>i \<in> set ?sel. \<not> locked (?cs ! i)" using alt by blast
    qed
    have kept: "\<And>n. solutionIndex ?sols n \<noteq> gid \<Longrightarrow> solutionIndex sols' n = solutionIndex ?sols n"
    proof -
      fix n assume d: "solutionIndex ?sols n \<noteq> gid"
      show "solutionIndex sols' n = solutionIndex ?sols n"
      proof (cases "0 \<le> gid")
        case False then show ?thesis by (simp add: sols'_def clearSolution_def)
      next
        case True
        have "findIndex (\<lambda>grp. n \<in> set grp) ?sols \<noteq> int (nat gid)"
          using d True by (simp add: solutionIndex_def)
        then have "findIndex (\<lambda>grp. n \<in> set grp) (?sols[nat gid := []])
              = findIndex (\<lambda>grp. n \<in> set grp) ?sols"
          by (intro findIndex_update) simp_all
        then show ?thesis using True by (simp add: sols'_def clearSolution_def solutionIndex_def)
      qed
    qed
    have gone: "\<And>n. solutionIndex ?sols n = gid \<Longrightarrow> solutionIndex sols' n = -1"
    proof -
      fix n assume d: "solutionIndex ?sols n = gid"
      show "solutionIndex sols' n = -1"
      proof (cases "0 \<le> gid")
        case False
        have "-1 \<le> solutionIndex ?sols n" unfolding solutionIndex_def by (rule findIndex_ge)
        then have "solutionIndex ?sols n = -1" using d False by simp
        then show ?thesis using False by (simp add: sols'_def clearSolution_def)
      next
        case True
        have "findIndex (\<lambda>grp. n \<in> set grp) ?sols = int (nat gid)"
          using d True by (simp add: solutionIndex_def)
        then have "findIndex (\<lambda>grp. n \<in> set grp) (?sols[nat gid := []]) = -1"
          using ap by (intro findIndex_cleared) simp_all
        then show ?thesis using True by (simp add: sols'_def clearSolution_def solutionIndex_def)
      qed
    qed
    have tr': "\<forall>j < length cs'. locked (cs' ! j) \<or> solutionIndex sols' (name (cs' ! j)) = groupId (cs' ! j)"
    proof (intro allI impI)
      fix j assume j: "j < length cs'"
      then have jl: "j < length ?cs" by (simp add: len)
      show "locked (cs' ! j) \<or> solutionIndex sols' (name (cs' ! j)) = groupId (cs' ! j)"
      proof (cases "locked (cs' ! j)")
        case True then show ?thesis by simp
      next
        case False
        then have u: "\<not> locked (?cs ! j)" and ns: "j \<notin> set ?sel"
          using jl by (simp_all add: cs'_def lockCards_locked)
        have nm: "name (cs' ! j) = name (?cs ! j)" "groupId (cs' ! j) = groupId (?cs ! j)"
          using jl by (simp_all add: cs'_def lockCards_name)
        have old: "solutionIndex ?sols (name (?cs ! j)) = groupId (?cs ! j)" using tr jl u by auto
        have "solutionIndex sols' (name (?cs ! j)) = solutionIndex ?sols (name (?cs ! j))"
        proof (cases "0 \<le> gid")
          case False then show ?thesis by (simp add: sols'_def clearSolution_def)
        next
          case p: True
          have same: "\<forall>i \<in> set ?sel. i < length ?cs \<and> \<not> locked (?cs ! i) \<and> groupId (?cs ! i) = gid"
          proof
            fix i assume i: "i \<in> set ?sel"
            have "\<not> locked (?cs ! i)" using open_sel p i by blast
            then show "i < length ?cs \<and> \<not> locked (?cs ! i) \<and> groupId (?cs ! i) = gid"
              using vs tr idx i by auto
          qed
          have "groupId (?cs ! j) \<noteq> gid"
            using all_of_group_selected[OF cnt[rule_format, of gid] ds _ same jl u] True ns by auto
          then show ?thesis using old kept by simp
        qed
        then show ?thesis using nm old by simp
      qed
    qed
    have lk': "\<forall>j < length cs'. locked (cs' ! j) \<longrightarrow> solutionIndex sols' (name (cs' ! j)) = -1"
    proof (intro allI impI)
      fix j assume j: "j < length cs'" and l: "locked (cs' ! j)"
      have jl: "j < length ?cs" using j by (simp add: len)
      have nm: "name (cs' ! j) = name (?cs ! j)" using jl by (simp add: cs'_def lockCards_name)
      have "solutionIndex sols' (name (?cs ! j)) = -1"
      proof (cases "solutionIndex ?sols (name (?cs ! j)) = gid")
        case True then show ?thesis by (rule gone)
      next
        case False
        then have "j \<notin> set ?sel" using idx by auto
        then have "locked (?cs ! j)" using l jl by (simp add: cs'_def lockCards_locked)
        then have "solutionIndex ?sols (name (?cs ! j)) = -1" using lk jl by simp
        then show ?thesis using kept[OF False] by simp
      qed
      then show "solutionIndex sols' (name (cs' ! j)) = -1" using nm by simp
    qed
    have ap': "groups_apart sols'"
      using ap by (simp add: sols'_def clearSolution_def groups_apart_clear)
    have cnt': "\<forall>k. length (open_cards k cs') \<le> GROUP_SIZE"
      using cnt open_cards_lock[of _ ?sel ?cs] unfolding cs'_def by (meson le_trans)
    have now_locked: "\<forall>i \<in> set ?sel. locked (cs' ! i)"
      using vs by (simp add: cs'_def lockCards_locked)
    have sel': "distinct (selected g') \<and> list_all (\<lambda>i. i < length cs') (selected g')
        \<and> (list_all (\<lambda>i. \<not> locked (cs' ! i)) (selected g')
           \<or> length (selected g') = GROUP_SIZE \<and> list_all (\<lambda>i. locked (cs' ! i)) (selected g'))"
      using st(3) ds vs now_locked True len by (cases f) (simp_all add: list_all_iff)
    have i1: "tracks_groups g'"
      using tr' by (simp add: tracks_groups_def list_all_length st)
    have i2: "list_all (\<lambda>c. locked c \<longrightarrow> solutionIndex (solutions g') (name c) = -1) (cardData g')"
      using lk' by (simp add: list_all_length st)
    have i3: "groups_apart (solutions g')" using ap' by (simp add: st)
    have i4: "\<forall>k. length (open_cards k (cardData g')) \<le> GROUP_SIZE" using cnt' by (simp add: st)
    have i5: "distinct (selected g') \<and> list_all (\<lambda>i. i < length (cardData g')) (selected g')
        \<and> (list_all (\<lambda>i. \<not> locked (cardData g' ! i)) (selected g')
           \<or> length (selected g') = GROUP_SIZE
             \<and> list_all (\<lambda>i. locked (cardData g' ! i)) (selected g'))"
      using sel' by (simp only: st(1))
    have "session_inv g'" unfolding session_inv_def using i1 i2 i3 i4 i5 by blast
    then show ?thesis by (simp add: g'_def)
  qed
qed

lemma session_inv_click: "session_inv g \<Longrightarrow> session_inv (snd (onCardClick idx g))"
proof -
  assume i: "session_inv g"
  have alt: "(\<forall>i \<in> set (selected g). \<not> locked (cardData g ! i))
      \<or> length (selected g) = GROUP_SIZE \<and> (\<forall>i \<in> set (selected g). locked (cardData g ! i))"
    using i by (simp add: session_inv_def list_all_iff)
  have ds: "distinct (selected g)" and vs: "\<forall>i \<in> set (selected g). i < length (cardData g)"
    using i by (simp_all add: session_inv_def list_all_iff)
  show ?thesis
  proof (cases "length (cardData g) \<le> idx \<or> locked (cardData g ! idx)")
    case True
    then have "snd (onCardClick idx g) = g" by (auto simp: onCardClick_def)
    then show ?thesis using i by simp
  next
    case False
    then have u: "idx < length (cardData g)" "\<not> locked (cardData g ! idx)" by simp_all
    show ?thesis
    proof (cases "idx \<in> set (selected g)")
      case True
      then have op: "\<forall>i \<in> set (selected g). \<not> locked (cardData g ! i)" using alt u(2) by blast
      have e: "snd (onCardClick idx g) = g\<lparr>selected := remove1 idx (selected g)\<rparr>"
        using u True by (simp add: onCardClick_def)
      have "\<forall>i \<in> set (remove1 idx (selected g)). i < length (cardData g) \<and> \<not> locked (cardData g ! i)"
        using op vs by (auto dest: notin_set_remove1)
      then show ?thesis unfolding e using i ds by (intro session_inv_select) simp_all
    next
      case F: False
      show ?thesis
      proof (cases "GROUP_SIZE \<le> length (selected g)")
        case True
        then have "snd (onCardClick idx g) = g\<lparr>progress := progress g, status := SelectUpTo\<rparr>"
          using u F by (simp add: onCardClick_def)
        then show ?thesis using i session_inv_report by metis
      next
        case small: False
        then have op: "\<forall>i \<in> set (selected g). \<not> locked (cardData g ! i)" using alt by auto
        have e: "snd (onCardClick idx g) = g\<lparr>selected := selected g @ [idx]\<rparr>"
          using u F small by (simp add: onCardClick_def)
        have "\<forall>i \<in> set (selected g @ [idx]). i < length (cardData g) \<and> \<not> locked (cardData g ! i)"
          using op vs u by auto
        then show ?thesis unfolding e using i ds F by (intro session_inv_select) simp_all
      qed
    qed
  qed
qed

lemma session_inv_step: "session_inv g \<Longrightarrow> session_inv (step f a g)"
proof (cases a)
  case (CardClick idx)
  assume "session_inv g"
  then show ?thesis using CardClick by (simp add: session_inv_click)
next
  case LockGroup
  assume "session_inv g"
  then show ?thesis using LockGroup by (simp add: session_inv_lock)
next
  case ClearSelection
  assume "session_inv g"
  then show ?thesis using ClearSelection by (simp add: clearSelection_def session_inv_def tracks_groups_def)
next
  case Reveal
  assume "session_inv g"
  then show ?thesis using Reveal by (simp add: revealAnswers_def session_inv_def tracks_groups_def)
qed

lemma session_inv_run: "session_inv g \<Longrightarrow> session_inv (run f acts g)"
  unfolding run_def by (induction acts arbitrary: g) (simp_all add: session_inv_step)

lemma filter_map2_names:
  "length ns = length ms \<Longrightarrow>
     length (filter (\<lambda>c. \<not> locked c \<and> groupId c = k)
        (map2 (\<lambda>n m. \<lparr>name = n, metadata = m, groupId = h n, locked = False\<rparr>) ns ms))
     = length (filter (\<lambda>n. h n = k) ns)"
  by (induction ns ms rule: list_induct2) simp_all

lemma all_map2_names:
  "length ns = length ms \<Longrightarrow>
     list_all (\<lambda>c. locked c \<or> h (name c) = groupId c)
        (map2 (\<lambda>n m. \<lparr>name = n, metadata = m, groupId = h n, locked = False\<rparr>) ns ms)"
  by (induction ns ms rule: list_induct2) simp_all

lemma none_locked_map2:
  "length ns = length ms \<Longrightarrow>
     list_all (\<lambda>c. locked c \<longrightarrow> Q c)
        (map2 (\<lambda>n m. \<lparr>name = n, metadata = m, groupId = h n, locked = False\<rparr>) ns ms)"
  by (induction ns ms rule: list_induct2) simp_all

lemma publishBoard_session_inv:
  assumes "groups_of_four sols" "groups_apart sols"
  shows "session_inv (fst (publishBoard f w sols t))"
proof -
  obtain sh t1 where a: "shuffle w (concat sols) t = (sh, t1)" by (cases "shuffle w (concat sols) t")
  obtain ms t2 where b: "fetchAll f w sh t1 = (ms, t2)" by (cases "fetchAll f w sh t1")
  have l: "length sh = length ms" using fetchAll_length[of f w sh t1] b by simp
  have m: "mset sh = mset (concat sols)" using shuffle_mset[of w "concat sols" t] a by simp
  have cnt: "\<forall>k. length (filter (\<lambda>n. solutionIndex sols n = k) sh) \<le> GROUP_SIZE"
  proof
    fix k
    have "length (filter (\<lambda>n. solutionIndex sols n = k) sh)
        = size (filter_mset (\<lambda>n. solutionIndex sols n = k) (mset sh))" by (simp flip: mset_filter)
    also have "\<dots> = length (filter (\<lambda>n. solutionIndex sols n = k) (concat sols))"
      unfolding m by (simp flip: mset_filter)
    finally show "length (filter (\<lambda>n. solutionIndex sols n = k) sh) \<le> GROUP_SIZE"
      using assms(1) by (simp add: groups_of_four_def)
  qed
  show ?thesis
    using a b cnt assms(2) filter_map2_names[OF l, of _ "solutionIndex sols"]
      all_map2_names[OF l, of "solutionIndex sols"]
      none_locked_map2[OF l, of "\<lambda>c. solutionIndex sols (name c) = -1" "solutionIndex sols"]
    by (simp add: publishBoard_def resetState_def session_inv_def tracks_groups_def open_cards_def)
qed

subsection \<open>Judging a guess\<close>

text \<open>
  Claim C2. A guess of four unlocked board positions is judged correct exactly when
  the names selected have one solution index among them
  (\<open>solutions.findIndex(g => g.includes(n))\<close>), and incorrect otherwise. A correct
  guess locks the four cards. An incorrect guess leaves every card, the solutions
  and the selection as they were, so the selected cards stay unlocked and the same
  guess is judged again the same way. Where the cards track their groups, which
  \<open>session_inv\<close> says of every state of a session, the verdict is correct exactly
  when the four cards have one \<open>groupId\<close>.
\<close>

theorem lockSelection_judgement:
  assumes "length (selected g) = GROUP_SIZE"
    and "\<forall>i \<in> set (selected g). i < length (cardData g) \<and> \<not> locked (cardData g ! i)"
  shows "((\<exists>gid. fst (lockSelection f g) = Correct gid) =
            (card ((\<lambda>i. solutionIndex (solutions g) (name (cardData g ! i))) ` set (selected g)) = 1))
       \<and> ((fst (lockSelection f g) = Incorrect) =
            (card ((\<lambda>i. solutionIndex (solutions g) (name (cardData g ! i))) ` set (selected g)) \<noteq> 1))
       \<and> ((\<exists>gid. fst (lockSelection f g) = Correct gid) \<longrightarrow>
            (\<forall>i \<in> set (selected g). locked (cardData (snd (lockSelection f g)) ! i)))
       \<and> (fst (lockSelection f g) = Incorrect \<longrightarrow>
            cardData (snd (lockSelection f g)) = cardData g
          \<and> solutions (snd (lockSelection f g)) = solutions g
          \<and> selected (snd (lockSelection f g)) = selected g
          \<and> (\<forall>i \<in> set (selected g). \<not> locked (cardData (snd (lockSelection f g)) ! i))
          \<and> fst (lockSelection f (snd (lockSelection f g))) = Incorrect)
       \<and> (tracks_groups g \<longrightarrow>
            ((\<exists>gid. fst (lockSelection f g) = Correct gid) =
               (card ((\<lambda>i. groupId (cardData g ! i)) ` set (selected g)) = 1)))"
proof -
  let ?ids = "map (solutionIndex (solutions g)) (map (\<lambda>i. name (cardData g ! i)) (selected g))"
  have v: "\<not> (\<exists>i \<in> set (selected g). length (cardData g) \<le> i)" using assms(2) by auto
  have c: "length (js_set ?ids) = card ((\<lambda>i. solutionIndex (solutions g) (name (cardData g ! i))) ` set (selected g))"
    by (simp add: js_set_length image_image)
  have first: "((\<exists>gid. fst (lockSelection f g) = Correct gid) =
            (card ((\<lambda>i. solutionIndex (solutions g) (name (cardData g ! i))) ` set (selected g)) = 1))
       \<and> ((fst (lockSelection f g) = Incorrect) =
            (card ((\<lambda>i. solutionIndex (solutions g) (name (cardData g ! i))) ` set (selected g)) \<noteq> 1))
       \<and> ((\<exists>gid. fst (lockSelection f g) = Correct gid) \<longrightarrow>
            (\<forall>i \<in> set (selected g). locked (cardData (snd (lockSelection f g)) ! i)))
       \<and> (fst (lockSelection f g) = Incorrect \<longrightarrow>
            cardData (snd (lockSelection f g)) = cardData g
          \<and> solutions (snd (lockSelection f g)) = solutions g
          \<and> selected (snd (lockSelection f g)) = selected g
          \<and> (\<forall>i \<in> set (selected g). \<not> locked (cardData (snd (lockSelection f g)) ! i))
          \<and> fst (lockSelection f (snd (lockSelection f g))) = Incorrect)"
  proof (cases "length (js_set ?ids) = 1")
    case True
    have "\<forall>i \<in> set (selected g). locked (lockCards (selected g) (cardData g) ! i)"
      using assms(2) by (simp add: lockCards_locked)
    then show ?thesis using True assms(1) v c
      by (cases f)
        (simp_all add: lockSelection_def renderBoard_def updateProgress_def Let_def checkWin_def)
  next
    case False
    then show ?thesis using assms v c
      by (simp add: lockSelection_def Let_def)
  qed
  have second: "tracks_groups g \<longrightarrow>
      ((\<exists>gid. fst (lockSelection f g) = Correct gid) =
         (card ((\<lambda>i. groupId (cardData g ! i)) ` set (selected g)) = 1))"
  proof
    assume t: "tracks_groups g"
    have "\<forall>i \<in> set (selected g).
        solutionIndex (solutions g) (name (cardData g ! i)) = groupId (cardData g ! i)"
      using t assms(2) by (auto simp: tracks_groups_def list_all_length)
    then have "(\<lambda>i. solutionIndex (solutions g) (name (cardData g ! i))) ` set (selected g)
        = (\<lambda>i. groupId (cardData g ! i)) ` set (selected g)"
      by (intro image_cong) simp_all
    then show "(\<exists>gid. fst (lockSelection f g) = Correct gid) =
        (card ((\<lambda>i. groupId (cardData g ! i)) ` set (selected g)) = 1)"
      using first by simp
  qed
  show ?thesis using first second by blast
qed

theorem lockSelection_judgement_witness:
  "selected demo_full = [3, 4, 5, 6]
     \<and> tracks_groups demo_full
     \<and> map (\<lambda>i. groupId (cardData demo_full ! i)) (selected demo_full) = [1, 1, 1, 1]
     \<and> fst (lockSelection Script_js demo_full) = Correct 1
     \<and> list_all (\<lambda>i. locked (cardData (snd (lockSelection Script_js demo_full)) ! i)) (selected demo_full)
     \<and> fst (lockSelection Part_001 demo_full) = Correct 1
     \<and> list_all (\<lambda>i. locked (cardData (snd (lockSelection Part_001 demo_full)) ! i)) (selected demo_full)
     \<and> selected demo_mixed = [0, 1, 2, 3]
     \<and> map (\<lambda>i. groupId (cardData demo_mixed ! i)) (selected demo_mixed) = [0, 0, 0, 1]
     \<and> fst (lockSelection Script_js demo_mixed) = Incorrect
     \<and> cardData (snd (lockSelection Script_js demo_mixed)) = cardData demo_mixed
     \<and> solutions (snd (lockSelection Script_js demo_mixed)) = solutions demo_mixed
     \<and> fst (lockSelection Script_js (snd (lockSelection Script_js demo_mixed))) = Incorrect"
proof -
  have s: "selected demo_full = [3, 4, 5, 6]" by code_simp
  have t: "tracks_groups demo_full" by code_simp
  have i: "map (\<lambda>i. groupId (cardData demo_full ! i)) (selected demo_full) = [1, 1, 1, 1]"
    by code_simp
  have a: "length (selected demo_full) = GROUP_SIZE" by code_simp
  have b: "\<forall>i \<in> set (selected demo_full).
             i < length (cardData demo_full) \<and> \<not> locked (cardData demo_full ! i)" by code_simp
  have c: "fst (lockSelection Script_js demo_full) = Correct 1" by code_simp
  have c2: "fst (lockSelection Part_001 demo_full) = Correct 1" by code_simp
  have s': "selected demo_mixed = [0, 1, 2, 3]" by code_simp
  have i': "map (\<lambda>i. groupId (cardData demo_mixed ! i)) (selected demo_mixed) = [0, 0, 0, 1]"
    by code_simp
  have a': "length (selected demo_mixed) = GROUP_SIZE" by code_simp
  have b': "\<forall>i \<in> set (selected demo_mixed).
             i < length (cardData demo_mixed) \<and> \<not> locked (cardData demo_mixed ! i)" by code_simp
  have c': "fst (lockSelection Script_js demo_mixed) = Incorrect" by code_simp
  show ?thesis
    using s t i c c2 s' i' c' lockSelection_judgement[OF a b, of Script_js]
      lockSelection_judgement[OF a b, of Part_001] lockSelection_judgement[OF a' b', of Script_js]
    unfolding list_all_iff by blast
qed

subsection \<open>Submitting a correct guess again\<close>

lemma clicks_ignored:
  "\<forall>i \<in> set xs. step f (CardClick i) g = g \<Longrightarrow> run f (map CardClick xs) g = g"
  unfolding run_def by (induction xs) simp_all

lemma clicks_on_locked:
  assumes "\<forall>i \<in> set xs. i < length (cardData g) \<and> locked (cardData g ! i)"
  shows "run f (map CardClick xs) g = g"
proof -
  have "\<forall>i \<in> set xs. step f (CardClick i) g = g" using assms by (simp add: onCardClick_def)
  then show ?thesis by (rule clicks_ignored)
qed

text \<open>
  In \<open>part_001\<close>, after a guess has been judged correct, clicking its four
  positions again changes nothing, because \<open>onCardClick\<close> returns at once on a
  locked card: the selection stays empty, and the second submission is refused for
  its size (\<open>InvalidSelectionSize\<close>), it is not judged.
\<close>

lemma part_001_second_submission_refused:
  assumes "lockSelection Part_001 g = (Correct gid, g')"
  shows "(\<forall>i \<in> set (selected g). onCardClick i g' = (Ignored_Locked, g'))
       \<and> run Part_001 (map CardClick (selected g)) g' = g'
       \<and> selected g' = []
       \<and> fst (lockSelection Part_001 (run Part_001 (map CardClick (selected g)) g')) = InvalidSelectionSize"
proof -
  have s: "length (selected g) = GROUP_SIZE" using assms
    by (auto simp: lockSelection_def split: if_splits)
  have v: "\<forall>i \<in> set (selected g). i < length (cardData g)" using assms s
    by (auto simp: lockSelection_def Let_def split: if_splits)
  have c: "cardData g' = lockCards (selected g) (cardData g)" and e: "selected g' = []"
    using assms s v
    by (auto simp: lockSelection_def renderBoard_def updateProgress_def Let_def checkWin_def
        split: if_splits)
  have k: "\<forall>i \<in> set (selected g). onCardClick i g' = (Ignored_Locked, g')"
    using v c by (auto simp add: onCardClick_def lockCards_length lockCards_locked)
  then have r: "run Part_001 (map CardClick (selected g)) g' = g'"
    by (intro clicks_ignored) simp
  have "fst (lockSelection Part_001 g') = InvalidSelectionSize" using e
    by (simp add: lockSelection_def GROUP_SIZE_def)
  then show ?thesis using k r e by simp
qed

text \<open>
  Claim C3 fails on \<open>script.js\<close>. The guess at positions 3 to 6 of the demo board
  is judged correct. \<open>renderBoard()\<close> then throws, so the selection is not
  emptied: the four locked cards stay selected, and clicks on them are ignored.
  The second submission is not refused. The names of the four cards are no
  longer in \<open>solutions\<close>, so each of them has the index \<open>-1\<close>, the set of
  indices has one element, and the guess is judged correct again, as group
  \<open>-1\<close>: the progress list gets a second item, \<open>Group 0: Correct\<close>. The same
  events in \<open>part_001\<close> end with the second submission refused.
\<close>

theorem second_submission_judged_correct:
  "fst (lockSelection Script_js demo_full) = Correct 1
   \<and> demo_claimed = snd (lockSelection Script_js demo_full)
   \<and> selected demo_claimed = [3, 4, 5, 6]
   \<and> list_all (\<lambda>i. locked (cardData demo_claimed ! i)) [3, 4, 5, 6]
   \<and> run Script_js (map CardClick [3, 4, 5, 6]) demo_claimed = demo_claimed
   \<and> fst (lockSelection Script_js demo_claimed) = Correct (-1)
   \<and> progress (snd (lockSelection Script_js demo_claimed)) = [GroupCorrect 2, GroupCorrect 0]
   \<and> status (snd (lockSelection Script_js demo_claimed)) = CorrectLocked
   \<and> fst (lockSelection Part_001
             (run Part_001 (map CardClick [3, 4, 5, 6]) (snd (lockSelection Part_001 demo_full))))
       = InvalidSelectionSize"
proof -
  have a: "fst (lockSelection Script_js demo_full) = Correct 1" by code_simp
  have b: "demo_claimed = snd (lockSelection Script_js demo_full)"
    by (simp add: demo_claimed_def demo_full_def claim_def run_def)
  have c: "selected demo_claimed = [3, 4, 5, 6]" by code_simp
  have d: "list_all (\<lambda>i. locked (cardData demo_claimed ! i)) [3, 4, 5, 6]" by code_simp
  have d': "\<forall>i \<in> set [3, 4, 5, 6]. i < length (cardData demo_claimed) \<and> locked (cardData demo_claimed ! i)"
    by code_simp
  have e: "run Script_js (map CardClick [3, 4, 5, 6]) demo_claimed = demo_claimed"
    using d' by (rule clicks_on_locked)
  have f: "fst (lockSelection Script_js demo_claimed) = Correct (-1)" by code_simp
  have g: "progress (snd (lockSelection Script_js demo_claimed)) = [GroupCorrect 2, GroupCorrect 0]"
    by code_simp
  have h: "status (snd (lockSelection Script_js demo_claimed)) = CorrectLocked" by code_simp
  have i: "fst (lockSelection Part_001
             (run Part_001 (map CardClick [3, 4, 5, 6]) (snd (lockSelection Part_001 demo_full))))
       = InvalidSelectionSize" by code_simp
  show ?thesis using a b c d e f g h i by blast
qed

section \<open>Generation\<close>

subsection \<open>Pools and padding\<close>

lemma sampleArray_length: "length (fst (sampleArray w arr n t)) = min n (length arr)"
proof -
  obtain a t' where s: "shuffle w arr t = (a, t')" by (cases "shuffle w arr t")
  have "length a = length arr" using shuffle_length[of w arr t] s by simp
  then show ?thesis using s by (simp add: sampleArray_def min_def)
qed

lemma removeFromPool_distinct_set:
  "distinct pool \<Longrightarrow> distinct (removeFromPool pool items) \<and> set (removeFromPool pool items) = set pool - set items"
  unfolding removeFromPool_def
proof (induction items arbitrary: pool)
  case Nil then show ?case by simp
next
  case (Cons a items)
  have d: "distinct (remove1 a pool)" using Cons.prems by simp
  show ?case using Cons.IH[OF d] Cons.prems by auto
qed

lemma pool_after_remove:
  assumes "distinct pool" "distinct pool'" "set pool - set G \<subseteq> set pool'"
  shows "length pool \<le> length (removeFromPool pool' G) + length G"
proof -
  have e: "distinct (removeFromPool pool' G)" "set (removeFromPool pool' G) = set pool' - set G"
    using removeFromPool_distinct_set[OF assms(2), of G] by simp_all
  have "set pool - set G \<subseteq> set pool' - set G" using assms(3) by auto
  then have "card (set pool - set G) \<le> card (set pool' - set G)"
    by (intro card_mono) simp_all
  moreover have "card (set pool) - card (set G) \<le> card (set pool - set G)"
    by (intro diff_card_le_card_Diff) simp
  moreover have "card (set G) \<le> length G" by (rule card_length)
  moreover have "card (set pool) = length pool" using assms(1) by (rule distinct_card)
  moreover have "card (set pool' - set G) = length (removeFromPool pool' G)"
    using e distinct_card[of "removeFromPool pool' G"] by simp
  ultimately show ?thesis by linarith
qed

lemma popUntil_ok:
  "distinct pool \<Longrightarrow> length xs \<le> c \<Longrightarrow> c - length xs \<le> card (set pool - set xs) \<Longrightarrow>
     \<exists>ys pool'. popUntil guarded c xs pool = Inr (ys, pool') \<and> length ys = c
        \<and> set pool - set ys \<subseteq> set pool' \<and> distinct pool' \<and> set xs \<subseteq> set ys"
proof (induction guarded c xs pool rule: popUntil.induct)
  case (1 guarded c xs pool)
  show ?case
  proof (cases "c \<le> length xs")
    case True
    then show ?thesis using "1.prems" by (subst popUntil.simps) auto
  next
    case False
    then have ne: "pool \<noteq> []" using "1.prems"(3) by auto
    have split: "pool = butlast pool @ [last pool]" using ne by simp
    have d: "distinct (butlast pool)" using "1.prems"(1) by (simp add: distinct_butlast)
    have notin: "last pool \<notin> set (butlast pool)"
      using "1.prems"(1) split by (metis distinct_append disjoint_iff list.set_intros(1) distinct.simps(2) not_distinct_conv_prefix)
    have sp: "set pool = insert (last pool) (set (butlast pool))"
      using split by (metis Un_insert_right append_Nil2 list.simps(15) set_append)
    show ?thesis
    proof (cases "last pool \<in> set xs")
      case True
      have eq: "set (butlast pool) - set xs = set pool - set xs" using sp True by auto
      obtain ys pool' where r: "popUntil guarded c xs (butlast pool) = Inr (ys, pool')" "length ys = c"
          "set (butlast pool) - set ys \<subseteq> set pool'" "distinct pool'" "set xs \<subseteq> set ys"
        using "1.IH"(1)[OF False ne True d "1.prems"(2)] "1.prems"(3) eq by auto
      have "set pool - set ys \<subseteq> set pool'" using r(3,5) sp True by auto
      then show ?thesis using r False ne True by (subst popUntil.simps) auto
    next
      case F2: False
      have l: "length (xs @ [last pool]) \<le> c" using False by simp
      have "set (butlast pool) - set (xs @ [last pool]) = (set pool - set xs) - {last pool}"
        using sp notin by auto
      moreover have "last pool \<in> set pool - set xs" using sp F2 by auto
      ultimately have "card (set (butlast pool) - set (xs @ [last pool])) = card (set pool - set xs) - 1"
        by (simp add: card_Diff_singleton)
      then have k: "c - length (xs @ [last pool]) \<le> card (set (butlast pool) - set (xs @ [last pool]))"
        using "1.prems"(3) by simp
      obtain ys pool' where r: "popUntil guarded c (xs @ [last pool]) (butlast pool) = Inr (ys, pool')" "length ys = c"
          "set (butlast pool) - set ys \<subseteq> set pool'" "distinct pool'" "set (xs @ [last pool]) \<subseteq> set ys"
        using "1.IH"(2)[OF False ne F2 d l k] by auto
      have "set pool - set ys \<subseteq> set pool'" using r(3,5) sp by auto
      then show ?thesis using r False ne F2 by (subst popUntil.simps) auto
    qed
  qed
qed

lemma popUntil_subset:
  "popUntil guarded c xs pool = Inr (ys, pool') \<Longrightarrow> set ys \<subseteq> set xs \<union> set pool"
proof (induction guarded c xs pool rule: popUntil.induct)
  case (1 guarded c xs pool)
  show ?case
  proof (cases "c \<le> length xs \<or> pool = []")
    case True
    then show ?thesis using "1.prems" by (subst (asm) popUntil.simps) (auto split: if_splits)
  next
    case False
    then have a: "\<not> c \<le> length xs" and ne: "pool \<noteq> []" by simp_all
    have lp: "last pool \<in> set pool" using ne by simp
    have bp: "set (butlast pool) \<subseteq> set pool" by (auto dest: in_set_butlastD)
    show ?thesis
    proof (cases "last pool \<in> set xs")
      case True
      have "popUntil guarded c xs (butlast pool) = Inr (ys, pool')"
        using "1.prems" a ne True by (subst (asm) popUntil.simps) simp
      from "1.IH"(1)[OF a ne True this] show ?thesis using bp by auto
    next
      case F: False
      have "popUntil guarded c (xs @ [last pool]) (butlast pool) = Inr (ys, pool')"
        using "1.prems" a ne F by (subst (asm) popUntil.simps) simp
      from "1.IH"(2)[OF a ne F this] show ?thesis using bp lp by auto
    qed
  qed
qed

lemma popUntil_pool_subset:
  "popUntil guarded c xs pool = Inr (ys, pool') \<Longrightarrow> set pool' \<subseteq> set pool"
proof (induction guarded c xs pool rule: popUntil.induct)
  case (1 guarded c xs pool)
  show ?case
  proof (cases "c \<le> length xs \<or> pool = []")
    case True
    then show ?thesis using "1.prems" by (subst (asm) popUntil.simps) (auto split: if_splits)
  next
    case False
    then have a: "\<not> c \<le> length xs" and ne: "pool \<noteq> []" by simp_all
    have bp: "set (butlast pool) \<subseteq> set pool" by (auto dest: in_set_butlastD)
    show ?thesis
    proof (cases "last pool \<in> set xs")
      case True
      have "popUntil guarded c xs (butlast pool) = Inr (ys, pool')"
        using "1.prems" a ne True by (subst (asm) popUntil.simps) simp
      from "1.IH"(1)[OF a ne True this] show ?thesis using bp by auto
    next
      case F: False
      have "popUntil guarded c (xs @ [last pool]) (butlast pool) = Inr (ys, pool')"
        using "1.prems" a ne F by (subst (asm) popUntil.simps) simp
      from "1.IH"(2)[OF a ne F this] show ?thesis using bp by auto
    qed
  qed
qed

lemma sampleArray_subset: "set (fst (sampleArray w arr n t)) \<subseteq> set arr"
proof -
  obtain a t' where s: "shuffle w arr t = (a, t')" by (cases "shuffle w arr t")
  have "set a = set arr" using shuffle_set[of w arr t] s by simp
  then show ?thesis using s by (auto simp: sampleArray_def dest: in_set_takeD)
qed

subsection \<open>The builders\<close>

lemma typeScan_length:
  "typeScan f w sz tm ns t = (Some g, t') \<Longrightarrow> length g = sz"
proof (induction ns arbitrary: tm t)
  case Nil then show ?case by simp
next
  case (Cons n ns)
  obtain meta t1 where a: "fetchPokemonData f w n t = (meta, t1)" by (cases "fetchPokemonData f w n t")
  show ?case
  proof (cases "primaryType meta")
    case None
    then show ?thesis using Cons.prems a Cons.IH[of tm t1] by simp
  next
    case (Some ty)
    show ?thesis
    proof (cases "sz \<le> length (members (push_member ty n tm) ty)")
      case True
      then show ?thesis using Cons.prems a Some by (auto simp: Let_def)
    next
      case False
      then show ?thesis using Cons.prems a Some Cons.IH[of "push_member ty n tm" t1] by (simp add: Let_def)
    qed
  qed
qed

lemma buildTypeGroup_length:
  "buildTypeGroup f w pool sz t = (Some g, t') \<Longrightarrow> length g = sz"
proof -
  assume a: "buildTypeGroup f w pool sz t = (Some g, t')"
  obtain sample t1 where s: "shuffle w pool t = (sample, t1)" by (cases "shuffle w pool t")
  have "typeScan f w sz [] sample t1 = (Some g, t')" using a s by (simp add: buildTypeGroup_def)
  then show ?thesis by (rule typeScan_length)
qed

lemma fillerScan_bounds:
  "length ms < c \<Longrightarrow> length (fst (fillerScan f w ty c ms ns t)) \<le> c
      \<and> set (fst (fillerScan f w ty c ms ns t)) \<subseteq> set ms \<union> set ns"
proof (induction ns arbitrary: ms t)
  case Nil then show ?case by simp
next
  case (Cons n ns)
  obtain m t1 where a: "fetchPokemonData f w n t = (m, t1)" by (cases "fetchPokemonData f w n t")
  let ?ms = "if primaryType m = Some ty then ms @ [n] else ms"
  show ?case
  proof (cases "c \<le> length ?ms")
    case True
    then show ?thesis using a Cons.prems by (auto simp: Let_def split: if_splits)
  next
    case False
    then have "length ?ms < c" by simp
    from Cons.IH[OF this, of t1] show ?thesis using a False by (auto simp: Let_def split: if_splits)
  qed
qed

lemma findSameTypeFiller_ok:
  assumes "distinct pool" "c \<le> length pool" "0 < c"
  shows "\<exists>filler pool' t'. findSameTypeFiller f w pool r c t = Inr (filler, pool', t')
            \<and> length filler = c \<and> distinct pool' \<and> set pool - set filler \<subseteq> set pool'"
proof -
  obtain meta t1 where a: "fetchPokemonData f w r t = (meta, t1)" by (cases "fetchPokemonData f w r t")
  show ?thesis
  proof (cases "primaryType meta")
    case None
    obtain s t2 where b: "sampleArray w pool c t1 = (s, t2)" by (cases "sampleArray w pool c t1")
    have "length s = c" using sampleArray_length[of w pool c t1] b assms(2) by simp
    then show ?thesis using a None b assms(1) by (auto simp: findSameTypeFiller_def)
  next
    case (Some ty)
    obtain ms t2 where b: "fillerScan f w ty c [] pool t1 = (ms, t2)" by (cases "fillerScan f w ty c [] pool t1")
    have bnd: "length ms \<le> c" "set ms \<subseteq> set pool"
      using fillerScan_bounds[of "[]" c f w ty pool t1] b assms(3) by auto
    have "card (set pool) - card (set ms) \<le> card (set pool - set ms)"
      by (intro diff_card_le_card_Diff) simp
    moreover have "card (set ms) \<le> length ms" by (rule card_length)
    moreover have "card (set pool) = length pool" using assms(1) by (rule distinct_card)
    ultimately have k: "c - length ms \<le> card (set pool - set ms)" using assms(2) by linarith
    obtain ys pool' where p: "popUntil (f = Part_001) c ms pool = Inr (ys, pool')" "length ys = c"
        "set pool - set ys \<subseteq> set pool'" "distinct pool'"
      using popUntil_ok[OF assms(1) bnd(1) k, of "f = Part_001"] by auto
    then show ?thesis using a Some b by (auto simp: findSameTypeFiller_def)
  qed
qed

lemma push_member_ok: "buckets_ok P b \<Longrightarrow> P n \<Longrightarrow> buckets_ok P (push_member k n b)"
  unfolding buckets_ok_def by (induction b) (auto split: if_splits)

lemma members_ok: "buckets_ok P b \<Longrightarrow> x \<in> set (members b k) \<Longrightarrow> P x"
proof (cases "map_of b k")
  case None
  assume "x \<in> set (members b k)"
  then show ?thesis using None by (simp add: members_def)
next
  case (Some ms)
  assume ok: "buckets_ok P b" and x: "x \<in> set (members b k)"
  have "(k, ms) \<in> set b" using Some by (rule map_of_SomeD)
  moreover have "x \<in> set ms" using x Some by (simp add: members_def)
  ultimately show ?thesis using ok by (auto simp: buckets_ok_def)
qed

lemma largestBucket_ok_aux:
  "buckets_ok P b \<Longrightarrow> \<forall>x \<in> set best. P x \<Longrightarrow>
     \<forall>x \<in> set (foldl (\<lambda>best k. if length best < length (members b k) then members b k else best)
                    best ks). P x"
proof (induction ks arbitrary: best)
  case Nil then show ?case by simp
next
  case (Cons k ks)
  have m: "\<forall>x \<in> set (members b k). P x" using members_ok[OF Cons.prems(1)] by blast
  show ?case
  proof (cases "length best < length (members b k)")
    case True
    then show ?thesis using Cons.IH[OF Cons.prems(1) m] by simp
  next
    case False
    then show ?thesis using Cons.IH[OF Cons.prems(1) Cons.prems(2)] by simp
  qed
qed

lemma typeScan_buckets:
  "typeScan f w sz tm ns t = (Some g, t') \<Longrightarrow> buckets_ok P tm \<Longrightarrow>
     (\<forall>n \<in> set ns. P n) \<Longrightarrow> \<forall>x \<in> set g. P x"
proof (induction ns arbitrary: tm t)
  case Nil then show ?case by simp
next
  case (Cons n ns)
  obtain meta t1 where a: "fetchPokemonData f w n t = (meta, t1)" by (cases "fetchPokemonData f w n t")
  have rest: "\<forall>n \<in> set ns. P n" and pn: "P n" using Cons.prems(3) by simp_all
  show ?case
  proof (cases "primaryType meta")
    case None
    then show ?thesis using Cons.prems(1,2) a Cons.IH[of tm t1] rest by simp
  next
    case (Some ty)
    have ok: "buckets_ok P (push_member ty n tm)" using Cons.prems(2) pn by (rule push_member_ok)
    show ?thesis
    proof (cases "sz \<le> length (members (push_member ty n tm) ty)")
      case True
      then have "g = take sz (members (push_member ty n tm) ty)" using Cons.prems(1) a Some by (simp add: Let_def)
      then show ?thesis using members_ok[OF ok] by (auto dest: in_set_takeD)
    next
      case False
      then show ?thesis using Cons.prems(1) a Some Cons.IH[OF _ ok rest, of t1] by (simp add: Let_def)
    qed
  qed
qed

lemma buildTypeGroup_subset:
  assumes "buildTypeGroup f w pool sz t = (Some g, t')" shows "set g \<subseteq> set pool"
proof -
  obtain sample t1 where s: "shuffle w pool t = (sample, t1)" by (cases "shuffle w pool t")
  have e: "set sample = set pool" using shuffle_set[of w pool t] s by simp
  have "typeScan f w sz [] sample t1 = (Some g, t')" using assms s by (simp add: buildTypeGroup_def)
  then have "\<forall>x \<in> set g. x \<in> set pool"
    by (rule typeScan_buckets) (simp_all add: buckets_ok_def e)
  then show ?thesis by blast
qed

lemma chainScan_buckets:
  "chainScan f w sz cm ns t = (r, t') \<Longrightarrow> buckets_ok P cm \<Longrightarrow> (\<forall>n \<in> set ns. P n) \<Longrightarrow>
     (case r of Inl g \<Rightarrow> \<forall>x \<in> set g. P x | Inr cm' \<Rightarrow> buckets_ok P cm')"
proof (induction ns arbitrary: cm t)
  case Nil then show ?case by auto
next
  case (Cons n ns)
  obtain p t1 where a: "fetchPokemonData f w n t = (p, t1)" by (cases "fetchPokemonData f w n t")
  have rest: "\<forall>n \<in> set ns. P n" and pn: "P n" using Cons.prems(3) by simp_all
  show ?case
  proof (cases "evolution_chain p")
    case None
    then show ?thesis using Cons.prems(1,2) a Cons.IH[of cm t1] rest by simp
  next
    case (Some c)
    have ok: "buckets_ok P (push_member c n cm)" using Cons.prems(2) pn by (rule push_member_ok)
    show ?thesis
    proof (cases "c = []")
      case True
      then show ?thesis using Cons.prems(1,2) a Some Cons.IH[of cm t1] rest by simp
    next
      case ne: False
      show ?thesis
      proof (cases "sz \<le> length (members (push_member c n cm) c)")
        case True
        then have "r = Inl (take sz (members (push_member c n cm) c))" using Cons.prems(1) a Some ne by (auto simp add: Let_def)
        then show ?thesis using members_ok[OF ok] by (auto dest: in_set_takeD)
      next
        case False
        then show ?thesis using Cons.prems(1) a Some ne Cons.IH[OF _ ok rest, of t1] by (simp add: Let_def)
      qed
    qed
  qed
qed

lemma buildEvolutionGroup_subset:
  assumes "buildEvolutionGroup f w pool sz t = (Some g, t')" shows "set g \<subseteq> set pool"
proof -
  obtain r t1 where c: "chainScan f w sz [] pool t = (r, t1)" by (cases "chainScan f w sz [] pool t")
  have k: "case r of Inl g \<Rightarrow> \<forall>x \<in> set g. x \<in> set pool | Inr cm' \<Rightarrow> buckets_ok (\<lambda>x. x \<in> set pool) cm'"
    by (rule chainScan_buckets[OF c]) (simp_all add: buckets_ok_def)
  have "\<forall>x \<in> set g. x \<in> set pool"
  proof (cases r)
    case (Inl grp)
    then show ?thesis using assms c k by (simp add: buildEvolutionGroup_def)
  next
    case (Inr cm)
    then have "buckets_ok (\<lambda>x. x \<in> set pool) cm" using k by simp
    then have "\<forall>x \<in> set (largestBucket cm). x \<in> set pool"
      unfolding largestBucket_def by (rule largestBucket_ok_aux) simp
    then show ?thesis using assms c Inr by (auto simp: buildEvolutionGroup_def Let_def split: if_splits)
  qed
  then show ?thesis by blast
qed

lemma findSameTypeFiller_subset:
  assumes "findSameTypeFiller f w pool r c t = Inr (filler, pool', t')"
  shows "set filler \<subseteq> set pool"
proof -
  obtain meta t1 where a: "fetchPokemonData f w r t = (meta, t1)" by (cases "fetchPokemonData f w r t")
  show ?thesis
  proof (cases "primaryType meta")
    case None
    obtain s t2 where b: "sampleArray w pool c t1 = (s, t2)" by (cases "sampleArray w pool c t1")
    have "set s \<subseteq> set pool" using sampleArray_subset[of w pool c t1] b by simp
    then show ?thesis using assms a None b by (auto simp: findSameTypeFiller_def)
  next
    case (Some ty)
    obtain ms t2 where b: "fillerScan f w ty c [] pool t1 = (ms, t2)" by (cases "fillerScan f w ty c [] pool t1")
    show ?thesis
    proof (cases "c = 0")
      case True
      have "ms = [] \<or> set ms \<subseteq> set pool" using b True
        by (cases pool) (auto simp: Let_def split: prod.splits if_splits)
      then have sm: "set ms \<subseteq> set pool" by auto
      obtain ys p' where p: "popUntil (f = Part_001) c ms pool = Inr (ys, p')" "filler = ys"
        using assms a Some b by (auto simp: findSameTypeFiller_def split: sum.splits)
      show ?thesis using popUntil_subset[OF p(1)] sm p(2) by auto
    next
      case False
      then have sm: "set ms \<subseteq> set pool"
        using fillerScan_bounds[of "[]" c f w ty pool t1] b by auto
      obtain ys p' where p: "popUntil (f = Part_001) c ms pool = Inr (ys, p')" "filler = ys"
        using assms a Some b by (auto simp: findSameTypeFiller_def split: sum.splits)
      show ?thesis using popUntil_subset[OF p(1)] sm p(2) by auto
    qed
  qed
qed

lemma findSameTypeFiller_pool_subset:
  assumes "findSameTypeFiller f w pool r c t = Inr (filler, pool', t')"
  shows "set pool' \<subseteq> set pool"
proof -
  obtain meta t1 where a: "fetchPokemonData f w r t = (meta, t1)" by (cases "fetchPokemonData f w r t")
  show ?thesis
  proof (cases "primaryType meta")
    case None
    then show ?thesis using assms a by (auto simp: findSameTypeFiller_def split: prod.splits)
  next
    case (Some ty)
    obtain ms t2 where b: "fillerScan f w ty c [] pool t1 = (ms, t2)" by (cases "fillerScan f w ty c [] pool t1")
    obtain ys where p: "popUntil (f = Part_001) c ms pool = Inr (ys, pool')"
      using assms a Some b by (auto simp: findSameTypeFiller_def split: sum.splits)
    show ?thesis using popUntil_pool_subset[OF p] .
  qed
qed

lemma findSameTypeFiller_full:
  assumes "distinct pool" "c \<le> length pool" "0 < c"
  shows "\<exists>filler pool' t'. findSameTypeFiller f w pool r c t = Inr (filler, pool', t')
            \<and> length filler = c \<and> distinct pool' \<and> set pool - set filler \<subseteq> set pool'
            \<and> set filler \<subseteq> set pool \<and> set pool' \<subseteq> set pool"
proof -
  obtain filler pool' t' where e: "findSameTypeFiller f w pool r c t = Inr (filler, pool', t')"
      "length filler = c" "distinct pool'" "set pool - set filler \<subseteq> set pool'"
    using findSameTypeFiller_ok[OF assms, of f w r t] by auto
  show ?thesis using e findSameTypeFiller_subset[OF e(1)] findSameTypeFiller_pool_subset[OF e(1)] by blast
qed

subsection \<open>The four steps\<close>

lemma groups_apart_snoc:
  "groups_apart (gs @ [g]) = (groups_apart gs \<and> (\<forall>h \<in> set gs. set h \<inter> set g = {}))"
  by (induction gs) auto

lemma assembly_inv_extend:
  assumes "assembly_inv P groups pool" "length g = GROUP_SIZE" "distinct pool'"
    "set pool - set g \<subseteq> set pool'" "set g \<subseteq> set pool" "set pool' \<subseteq> set pool"
  shows "assembly_inv P (groups @ [g]) (removeFromPool pool' g)"
proof -
  have n: "length pool \<le> length (removeFromPool pool' g) + length g"
    using pool_after_remove[of pool pool' g] assms by (simp add: assembly_inv_def)
  have r: "distinct (removeFromPool pool' g)" "set (removeFromPool pool' g) = set pool' - set g"
    using removeFromPool_distinct_set[OF assms(3), of g] by simp_all
  have old: "\<forall>h \<in> set groups. set h \<inter> set pool = {}" using assms(1) by (simp add: assembly_inv_def)
  have a1: "groups_apart (groups @ [g])"
    using assms(1,5) old by (auto simp: groups_apart_snoc assembly_inv_def)
  have a2: "\<forall>h \<in> set (groups @ [g]). set h \<inter> set (removeFromPool pool' g) = {}"
    using old r(2) assms(6) by auto
  have a3: "\<forall>h \<in> set (groups @ [g]). \<forall>n \<in> set h. P n"
    using assms(1,5) by (auto simp: assembly_inv_def)
  have a4: "\<forall>n \<in> set (removeFromPool pool' g). P n"
    using assms(1,6) r(2) by (auto simp: assembly_inv_def)
  have a5: "\<forall>h \<in> set (groups @ [g]). length h = GROUP_SIZE"
    using assms(1,2) by (auto simp: assembly_inv_def)
  have a6: "MAX_BOARD \<le> length (removeFromPool pool' g) + GROUP_SIZE * length (groups @ [g])"
    using n assms(1,2) by (simp add: assembly_inv_def)
  show ?thesis unfolding assembly_inv_def using r(1) a1 a2 a3 a4 a5 a6 by blast
qed

lemma typeStep_ok:
  assumes "distinct pool" "MAX_BOARD \<le> length pool" "\<forall>n \<in> set pool. P n"
    "typeStep f w pool t = (groups, pool', t')"
  shows "assembly_inv P groups pool' \<and> length groups \<le> 1"
proof -
  have i: "assembly_inv P [] pool" using assms by (simp add: assembly_inv_def)
  obtain r t1 where a: "buildTypeGroup f w pool GROUP_SIZE t = (r, t1)" by (cases "buildTypeGroup f w pool GROUP_SIZE t")
  show ?thesis
  proof (cases r)
    case None
    then show ?thesis using a assms(4) i by (simp add: typeStep_def)
  next
    case (Some g)
    have l: "length g = GROUP_SIZE" using a Some buildTypeGroup_length by blast
    have s: "set g \<subseteq> set pool" using a Some buildTypeGroup_subset by blast
    have "assembly_inv P ([] @ [g]) (removeFromPool pool g)"
      by (rule assembly_inv_extend[OF i l assms(1) _ s]) simp_all
    then show ?thesis using a Some assms(4) by (auto simp: typeStep_def)
  qed
qed

lemma evolutionStep_ok:
  assumes "assembly_inv P groups pool" "length groups \<le> 1"
  shows "\<exists>groups' pool' t'. evolutionStep f w groups pool t = Inr (groups', pool', t')
           \<and> assembly_inv P groups' pool' \<and> length groups' \<le> 2"
proof -
  have d: "distinct pool" and big: "12 \<le> length pool"
    using assms by (auto simp: assembly_inv_def MAX_BOARD_def MAX_GROUPS_def GROUP_SIZE_def)
  obtain r t1 where a: "buildEvolutionGroup f w pool GROUP_SIZE t = (r, t1)"
    by (cases "buildEvolutionGroup f w pool GROUP_SIZE t")
  show ?thesis
  proof (cases r)
    case None
    then show ?thesis using a assms by (simp add: evolutionStep_def)
  next
    case (Some evo)
    have es: "set evo \<subseteq> set pool" using a Some buildEvolutionGroup_subset by blast
    show ?thesis
    proof (cases "length evo < GROUP_SIZE")
      case True
      let ?c = "GROUP_SIZE - length evo"
      let ?r = "case evo of [] \<Rightarrow> ''undefined'' | r # _ \<Rightarrow> r"
      have c: "?c \<le> length pool" "0 < ?c" using True big by (auto simp: GROUP_SIZE_def)
      obtain filler pool' t2 where fl: "findSameTypeFiller f w pool ?r ?c t1 = Inr (filler, pool', t2)"
          "length filler = ?c" "distinct pool'" "set pool - set filler \<subseteq> set pool'"
          "set filler \<subseteq> set pool" "set pool' \<subseteq> set pool"
        using findSameTypeFiller_full[OF d c, of f w ?r t1] by auto
      have l: "length (evo @ filler) = GROUP_SIZE" using fl(2) True by simp
      have s: "set pool - set (evo @ filler) \<subseteq> set pool'" using fl(4) by auto
      have s2: "set (evo @ filler) \<subseteq> set pool" using es fl(5) by simp
      from assembly_inv_extend[OF assms(1) l fl(3) s s2 fl(6)] show ?thesis using a Some True fl(1) assms(2)
        by (simp add: evolutionStep_def)
    next
      case False
      then have l: "length (take GROUP_SIZE evo) = GROUP_SIZE" by simp
      have s2: "set (take GROUP_SIZE evo) \<subseteq> set pool" using es by (auto dest: in_set_takeD)
      have "assembly_inv P (groups @ [take GROUP_SIZE evo]) (removeFromPool pool (take GROUP_SIZE evo))"
        by (rule assembly_inv_extend[OF assms(1) l d _ s2]) simp_all
      then show ?thesis using a Some False assms(2)
        by (simp add: evolutionStep_def)
    qed
  qed
qed

lemma legendStep_ok:
  assumes "assembly_inv P groups pool" "length groups \<le> 2"
  shows "\<exists>groups' pool'. legendStep f groups pool = Inr (groups', pool')
           \<and> assembly_inv P groups' pool' \<and> length groups' \<le> 3"
proof -
  have d: "distinct pool" and big: "8 \<le> length pool"
    using assms by (auto simp: assembly_inv_def MAX_BOARD_def MAX_GROUPS_def GROUP_SIZE_def)
  define lg where "lg = take GROUP_SIZE (filter (\<lambda>n. n \<in> set pool) (legendaryNames f))"
  have unfold: "legendStep f groups pool =
      (if 2 \<le> length lg then
        (case popUntil False GROUP_SIZE lg pool of
           Inl e \<Rightarrow> Inl e
         | Inr (legendGroup', pool') \<Rightarrow>
             Inr (groups @ [legendGroup'], removeFromPool pool' legendGroup'))
      else Inr (groups, pool))"
    unfolding legendStep_def lg_def Let_def ..
  have ls: "set lg \<subseteq> set pool" unfolding lg_def by (auto dest: in_set_takeD)
  show ?thesis
  proof (cases "2 \<le> length lg")
    case False
    then show ?thesis using assms unfold by simp
  next
    case True
    have l: "length lg \<le> GROUP_SIZE" by (simp add: lg_def)
    have "card (set pool) - card (set lg) \<le> card (set pool - set lg)"
      by (intro diff_card_le_card_Diff) simp
    moreover have "card (set lg) \<le> length lg" by (rule card_length)
    moreover have "card (set pool) = length pool" using d by (rule distinct_card)
    ultimately have k: "GROUP_SIZE - length lg \<le> card (set pool - set lg)"
      using big by (simp add: GROUP_SIZE_def)
    obtain ys pool' where p: "popUntil False GROUP_SIZE lg pool = Inr (ys, pool')" "length ys = GROUP_SIZE"
        "set pool - set ys \<subseteq> set pool'" "distinct pool'"
      using popUntil_ok[OF d l k, of False] by auto
    have ys: "set ys \<subseteq> set pool" using popUntil_subset[OF p(1)] ls by auto
    have ps: "set pool' \<subseteq> set pool" using popUntil_pool_subset[OF p(1)] .
    from assembly_inv_extend[OF assms(1) p(2) p(4) p(3) ys ps] show ?thesis using True p(1) assms(2) unfold
      by simp
  qed
qed

lemma fillRemaining_ok:
  "assembly_inv P groups pool \<Longrightarrow> length groups \<le> MAX_GROUPS \<Longrightarrow>
     length (fst (fillRemaining f w groups pool t)) = MAX_GROUPS
       \<and> (\<forall>g \<in> set (fst (fillRemaining f w groups pool t)). length g = GROUP_SIZE)
       \<and> groups_apart (fst (fillRemaining f w groups pool t))
       \<and> (\<forall>g \<in> set (fst (fillRemaining f w groups pool t)). \<forall>n \<in> set g. P n)"
proof (induction f w groups pool t rule: fillRemaining.induct)
  case (1 f w groups pool t)
  show ?case
  proof (cases "length groups < MAX_GROUPS")
    case False
    then show ?thesis using "1.prems" by (subst (1 2 3 4) fillRemaining.simps) (simp add: assembly_inv_def)
  next
    case True
    define r where "r = (case buildTypeGroup f w pool GROUP_SIZE t of
                          (Some g, t1) \<Rightarrow> (g, t1)
                        | (None, t1) \<Rightarrow> sampleArray w pool GROUP_SIZE t1)"
    obtain g t1 where gt: "r = (g, t1)" by (cases r)
    have d: "distinct pool" and big: "GROUP_SIZE \<le> length pool"
      using "1.prems" True by (auto simp: assembly_inv_def MAX_BOARD_def MAX_GROUPS_def GROUP_SIZE_def)
    have l: "length g = GROUP_SIZE \<and> set g \<subseteq> set pool"
    proof (cases "buildTypeGroup f w pool GROUP_SIZE t")
      case (Pair o1 t0)
      show ?thesis
      proof (cases o1)
        case None
        then have "sampleArray w pool GROUP_SIZE t0 = (g, t1)" using Pair gt r_def by simp
        then show ?thesis using sampleArray_length[of w pool GROUP_SIZE t0]
            sampleArray_subset[of w pool GROUP_SIZE t0] big by simp
      next
        case (Some g')
        then have "g' = g" using Pair gt r_def by simp
        then show ?thesis using Pair Some buildTypeGroup_length buildTypeGroup_subset by blast
      qed
    qed
    have i: "assembly_inv P (groups @ [g]) (removeFromPool pool g)"
      by (rule assembly_inv_extend[OF "1.prems"(1) _ d]) (simp_all add: l)
    have n: "length (groups @ [g]) \<le> MAX_GROUPS" using True by simp
    have e: "fillRemaining f w groups pool t = fillRemaining f w (groups @ [g]) (removeFromPool pool g) t1"
      using True gt r_def by (subst fillRemaining.simps) (simp add: Let_def)
    show ?thesis using "1.IH"[OF True r_def gt[symmetric] i n] e by simp
  qed
qed

lemma buildGroups_ok:
  assumes "distinct pool" "MAX_BOARD \<le> length pool" "\<forall>n \<in> set pool. P n"
  shows "\<exists>groups t'. buildGroups f w pool t = Inr (groups, t') \<and> length groups = MAX_GROUPS
           \<and> (\<forall>g \<in> set groups. length g = GROUP_SIZE) \<and> groups_apart groups
           \<and> (\<forall>g \<in> set groups. \<forall>n \<in> set g. P n)"
proof -
  obtain g1 p1 t1 where s1: "typeStep f w pool t = (g1, p1, t1)" by (cases "typeStep f w pool t")
  have i1: "assembly_inv P g1 p1" "length g1 \<le> 1" using typeStep_ok[OF assms s1] by simp_all
  obtain g2 p2 t2 where s2: "evolutionStep f w g1 p1 t1 = Inr (g2, p2, t2)" "assembly_inv P g2 p2" "length g2 \<le> 2"
    using evolutionStep_ok[OF i1, of f w t1] by auto
  obtain g3 p3 where s3: "legendStep f g2 p2 = Inr (g3, p3)" "assembly_inv P g3 p3" "length g3 \<le> 3"
    using legendStep_ok[OF s2(2,3), of f] by auto
  have "length g3 \<le> MAX_GROUPS" using s3(3) by (simp add: MAX_GROUPS_def)
  from fillRemaining_ok[OF s3(2) this, of f w t2] show ?thesis
    using s1 s2(1) s3(1) by (cases "fillRemaining f w g3 p3 t2") (auto simp: buildGroups_def)
qed

subsection \<open>The published board\<close>

lemma concat_length_uniform:
  "(\<forall>g \<in> set gs. length g = c) \<Longrightarrow> length (concat gs) = c * length gs"
  by (induction gs) simp_all

lemma publish_sixteen:
  assumes "length groups = MAX_GROUPS" "\<forall>g \<in> set groups. length g = GROUP_SIZE"
  shows "length (cardData (fst (publishBoard f w (map (map toLowerCase) groups) t))) = MAX_BOARD"
proof -
  have "\<forall>g \<in> set (map (map toLowerCase) groups). length g = GROUP_SIZE" using assms(2) by simp
  then have "length (concat (map (map toLowerCase) groups)) = GROUP_SIZE * length (map (map toLowerCase) groups)"
    by (rule concat_length_uniform)
  then show ?thesis using assms(1) by (simp add: publishBoard_length MAX_BOARD_def)
qed

lemma GEN1_distinct: "distinct GEN1"
  by code_simp

lemma GEN1_length: "length GEN1 = 147"
  by (simp add: GEN1_def)

lemma findIndex_found: "\<exists>x \<in> set xs. P x \<Longrightarrow> 0 \<le> findIndex P xs"
proof (induction xs)
  case Nil then show ?case by simp
next
  case (Cons a xs)
  show ?case
  proof (cases "P a")
    case True then show ?thesis by simp
  next
    case False
    then have "\<exists>x \<in> set xs. P x" using Cons.prems by simp
    then have "0 \<le> findIndex P xs" by (rule Cons.IH)
    then show ?thesis using False by (simp add: Let_def)
  qed
qed

lemma groups_apart_count:
  "groups_apart sols \<Longrightarrow> (\<forall>g \<in> set sols. length g \<le> c) \<Longrightarrow>
     length (filter (\<lambda>n. solutionIndex sols n = k) (concat sols)) \<le> c"
proof (induction sols arbitrary: k)
  case Nil then show ?case by simp
next
  case (Cons g rest)
  have head_idx: "\<And>n. n \<in> set g \<Longrightarrow> solutionIndex (g # rest) n = 0"
    by (simp add: solutionIndex_def)
  have head: "filter (\<lambda>n. solutionIndex (g # rest) n = k) g = (if k = 0 then g else [])"
    using head_idx by (simp add: filter_empty_conv)
  have tail_idx: "\<And>n. n \<in> set (concat rest) \<Longrightarrow>
      solutionIndex (g # rest) n = solutionIndex rest n + 1 \<and> 0 \<le> solutionIndex rest n"
  proof -
    fix n assume n: "n \<in> set (concat rest)"
    then have "n \<notin> set g" using Cons.prems(1) by auto
    moreover have "0 \<le> findIndex (\<lambda>grp. n \<in> set grp) rest" using n by (intro findIndex_found) auto
    ultimately show "solutionIndex (g # rest) n = solutionIndex rest n + 1 \<and> 0 \<le> solutionIndex rest n"
      by (simp add: solutionIndex_def Let_def)
  qed
  have tail: "filter (\<lambda>n. solutionIndex (g # rest) n = k) (concat rest)
        = filter (\<lambda>n. solutionIndex rest n = k - 1) (concat rest)"
  proof (rule filter_cong[OF refl])
    fix n assume "n \<in> set (concat rest)"
    then have "solutionIndex (g # rest) n = solutionIndex rest n + 1" using tail_idx by blast
    then show "(solutionIndex (g # rest) n = k) = (solutionIndex rest n = k - 1)" by auto
  qed
  have tail0: "k = 0 \<Longrightarrow> filter (\<lambda>n. solutionIndex (g # rest) n = k) (concat rest) = []"
  proof -
    assume k: "k = 0"
    have "\<forall>n \<in> set (concat rest). solutionIndex (g # rest) n \<noteq> 0"
    proof
      fix n assume n: "n \<in> set (concat rest)"
      show "solutionIndex (g # rest) n \<noteq> 0" using tail_idx[OF n] by simp
    qed
    then show ?thesis using k by (simp add: filter_empty_conv)
  qed
  have ih: "length (filter (\<lambda>n. solutionIndex rest n = k - 1) (concat rest)) \<le> c"
    using Cons.IH[of "k - 1"] Cons.prems by simp
  show ?case
  proof (cases "k = 0")
    case True
    then show ?thesis using head tail0 Cons.prems(2) by simp
  next
    case False
    then show ?thesis using head tail ih by simp
  qed
qed

lemma groups_of_four_apart:
  "groups_apart sols \<Longrightarrow> (\<forall>g \<in> set sols. length g = GROUP_SIZE) \<Longrightarrow> groups_of_four sols"
  unfolding groups_of_four_def using groups_apart_count[of sols GROUP_SIZE] by simp

lemma lower_table_range:
  "list_all (\<lambda>l. map_of (zip ''ABCDEFGHIJKLMNOPQRSTUVWXYZ'' ''abcdefghijklmnopqrstuvwxyz'') l = None)
     ''abcdefghijklmnopqrstuvwxyz''"
  by code_simp

lemma toLowerCase_idem: "toLowerCase (toLowerCase s) = toLowerCase s"
proof (induction s)
  case Nil then show ?case by (simp add: toLowerCase_def)
next
  case (Cons c s)
  let ?tbl = "zip ''ABCDEFGHIJKLMNOPQRSTUVWXYZ'' ''abcdefghijklmnopqrstuvwxyz''"
  let ?lo = "\<lambda>c. case map_of ?tbl c of None \<Rightarrow> c | Some l \<Rightarrow> l"
  have "?lo (?lo c) = ?lo c"
  proof (cases "map_of ?tbl c")
    case None then show ?thesis by simp
  next
    case (Some l)
    then have "(c, l) \<in> set ?tbl" by (rule map_of_SomeD)
    then have "l \<in> set ''abcdefghijklmnopqrstuvwxyz''" by (rule set_zip_rightD)
    then have "map_of ?tbl l = None" using lower_table_range unfolding list_all_iff by blast
    then show ?thesis using Some by simp
  qed
  then show ?case using Cons.IH by (simp add: toLowerCase_def)
qed

lemma poolLoop_lowercase:
  "\<forall>n \<in> set pool. lowercase n \<Longrightarrow> \<forall>n \<in> set (fst (poolLoop w gs pool t)). lowercase n"
proof (induction gs arbitrary: pool t)
  case Nil then show ?case by simp
next
  case (Cons g gs)
  show ?case
  proof (cases "generation_endpoint w t g")
    case Request_throws then show ?thesis using Cons.prems by simp
  next
    case Not_ok then show ?thesis using Cons.IH[OF Cons.prems] by simp
  next
    case (Species_list names)
    have "\<forall>n \<in> set (pool @ map toLowerCase (filter (\<lambda>s. s \<noteq> []) names)). lowercase n"
      using Cons.prems by (auto simp: lowercase_def toLowerCase_idem)
    from Cons.IH[OF this] show ?thesis using Species_list by simp
  qed
qed

lemma getPoolForGens_ok:
  assumes "cache_ok poolCache"
  shows "distinct (fst (getPoolForGens w poolCache a b t))
       \<and> (\<forall>n \<in> set (fst (getPoolForGens w poolCache a b t)). lowercase n)
       \<and> cache_ok (fst (snd (getPoolForGens w poolCache a b t)))"
proof (cases poolCache)
  case None
  obtain pool t1 where l: "poolLoop w [a..<Suc b] [] t = (pool, t1)"
    by (cases "poolLoop w [a..<Suc b] [] t")
  have "\<forall>n \<in> set pool. lowercase n" using poolLoop_lowercase[of "[]" w "[a..<Suc b]" t] l by simp
  then show ?thesis using None l
    by (simp add: getPoolForGens_def cache_ok_def js_set_distinct js_set_set Let_def list_all_iff del: upt_Suc)
next
  case (Some cached)
  then show ?thesis using assms by (simp add: getPoolForGens_def cache_ok_def list_all_iff)
qed

lemma GEN1_lowercase: "list_all lowercase GEN1"
  by code_simp

lemma buildGroups_script_js_ok:
  "\<exists>groups t'. buildGroups Script_js w GEN1 t = Inr (groups, t') \<and> length groups = MAX_GROUPS
      \<and> (\<forall>g \<in> set groups. length g = GROUP_SIZE)"
proof -
  have l: "MAX_BOARD \<le> length GEN1"
    by (simp add: GEN1_length MAX_BOARD_def MAX_GROUPS_def GROUP_SIZE_def)
  show ?thesis using buildGroups_ok[OF GEN1_distinct l, of "\<lambda>n. True" Script_js w t] by auto
qed




text \<open>
  In \<open>script.js\<close> the groups are always built and the sixteen cards assigned; the
  call then ends in the \<open>catch\<close> block, on the \<open>ReferenceError\<close> of
  \<open>renderBoard()\<close>.
\<close>

lemma startGame_script_js_caught:
  "\<exists>g. fst (startGame Script_js w poolCache t) = Caught ReferenceError g
        \<and> length (cardData g) = MAX_BOARD \<and> status g = ErrorGenerating"
proof -
  obtain groups t' where b: "buildGroups Script_js w GEN1 t = Inr (groups, t')"
      "length groups = MAX_GROUPS" "\<forall>g \<in> set groups. length g = GROUP_SIZE"
    using buildGroups_script_js_ok[of w t] by auto
  show ?thesis using b(1) publish_sixteen[OF b(2,3), of Script_js w t']
    by (simp add: startGame_def publishGroups_def renderBoard_def updateProgress_def caught_def)
qed

lemma publishGroups_session_inv:
  assumes "buildGroups f w pool t = Inr (groups, t')" "groups_apart groups"
    "\<forall>g \<in> set groups. length g = GROUP_SIZE" "\<forall>g \<in> set groups. \<forall>n \<in> set g. lowercase n"
    "publishGroups f w (buildGroups f w pool t) = Published g
       \<or> publishGroups f w (buildGroups f w pool t) = Caught ReferenceError g"
  shows "session_inv g"
proof -
  have "map (map toLowerCase) groups = groups"
    using assms(4) by (intro map_idI) (auto simp: lowercase_def)
  then have e: "\<exists>st. g = (fst (publishBoard f w groups t'))\<lparr>status := st\<rparr>"
    using assms(1,5)
    by (cases f) (auto simp: publishGroups_def renderBoard_def updateProgress_def caught_def)
  have "groups_of_four groups" using assms(2,3) by (rule groups_of_four_apart)
  then have "session_inv (fst (publishBoard f w groups t'))"
    using assms(2) by (rule publishBoard_session_inv)
  then show ?thesis using e by (auto simp: session_inv_def tracks_groups_def)
qed

text \<open>
  The board \<open>startGame\<close> leaves, whether the call ended well or on the
  \<open>ReferenceError\<close> of \<open>renderBoard()\<close>, is a state of a session.
\<close>

lemma startGame_session_inv:
  assumes "cache_ok poolCache"
    "fst (startGame f w poolCache t) = Published g
       \<or> fst (startGame f w poolCache t) = Caught ReferenceError g"
  shows "session_inv g"
proof (cases f)
  case Script_js
  have l: "MAX_BOARD \<le> length GEN1"
    by (simp add: GEN1_length MAX_BOARD_def MAX_GROUPS_def GROUP_SIZE_def)
  have lo: "\<forall>n \<in> set GEN1. lowercase n" using GEN1_lowercase by (simp add: list_all_iff)
  obtain groups t' where b: "buildGroups Script_js w GEN1 t = Inr (groups, t')"
      "length groups = MAX_GROUPS" "\<forall>g \<in> set groups. length g = GROUP_SIZE" "groups_apart groups"
      "\<forall>g \<in> set groups. \<forall>n \<in> set g. lowercase n"
    using buildGroups_ok[OF GEN1_distinct l lo, of Script_js w t] by auto
  have "publishGroups Script_js w (buildGroups Script_js w GEN1 t) = Published g
      \<or> publishGroups Script_js w (buildGroups Script_js w GEN1 t) = Caught ReferenceError g"
    using assms(2) Script_js by (simp add: startGame_def)
  from publishGroups_session_inv[OF b(1,4,3,5) this] show ?thesis .
next
  case Part_001
  obtain pool cache' t0 where p: "getPoolForGens w poolCache 1 MAX_GEN t = (pool, cache', t0)"
    by (cases "getPoolForGens w poolCache 1 MAX_GEN t")
  have dp: "distinct pool" and lo: "\<forall>n \<in> set pool. lowercase n"
    using getPoolForGens_ok[OF assms(1), of w 1 MAX_GEN t] p by simp_all
  obtain cand t1 where s: "shuffle w pool t0 = (cand, t1)" by (cases "shuffle w pool t0")
  have lp: "MAX_BOARD \<le> length pool"
    using assms(2) Part_001 p s by (auto simp: startGame_def caught_def split: if_splits)
  have pg: "publishGroups Part_001 w (buildGroups Part_001 w cand t1) = Published g
      \<or> publishGroups Part_001 w (buildGroups Part_001 w cand t1) = Caught ReferenceError g"
    using assms(2) Part_001 p s lp by (simp add: startGame_def)
  have d: "distinct cand" using shuffle_distinct[of w pool t0] s dp by simp
  have l: "MAX_BOARD \<le> length cand" using shuffle_length[of w pool t0] s lp by simp
  have lc: "\<forall>n \<in> set cand. lowercase n" using shuffle_set[of w pool t0] s lo by simp
  obtain groups t' where b: "buildGroups Part_001 w cand t1 = Inr (groups, t')"
      "length groups = MAX_GROUPS" "\<forall>g \<in> set groups. length g = GROUP_SIZE" "groups_apart groups"
      "\<forall>g \<in> set groups. \<forall>n \<in> set g. lowercase n"
    using buildGroups_ok[OF d l lc, of Part_001 w t1] by auto
  from publishGroups_session_inv[OF b(1,4,3,5) pg] show ?thesis using Part_001 by simp
qed

subsection \<open>Failed lookups\<close>



















subsection \<open>The filler and the group it fills\<close>

text \<open>
  Claim C1 fails on the code. In \<open>script.js\<close>, with the catalog answering for the
  Bulbasaur family only and \<open>Math.random()\<close> returning 0, no type group is found,
  the evolution group is the three-member Bulbasaur family, and the filler, which
  scans a pool that still holds the family, returns \<open>bulbasaur\<close> itself. The four
  groups then hold sixteen entries but fifteen distinct names.
\<close>

theorem generated_groups_repeat_a_name:
  "\<exists>groups t'. buildGroups Script_js bulbasaur_only GEN1 0 = Inr (groups, t')
      \<and> groups =
          [[''bulbasaur'', ''ivysaur'', ''venusaur'', ''bulbasaur''],
           [''articuno'', ''zapdos'', ''moltres'', ''mewtwo''],
           [''charmeleon'', ''charizard'', ''squirtle'', ''wartortle''],
           [''blastoise'', ''caterpie'', ''metapod'', ''butterfree'']]
      \<and> length (concat groups) = 16 \<and> \<not> distinct (concat groups)
      \<and> card (set (concat groups)) = 15"
proof -
  let ?G = "[[''bulbasaur'', ''ivysaur'', ''venusaur'', ''bulbasaur''],
            [''articuno'', ''zapdos'', ''moltres'', ''mewtwo''],
            [''charmeleon'', ''charizard'', ''squirtle'', ''wartortle''],
            [''blastoise'', ''caterpie'', ''metapod'', ''butterfree'']]"
  have e: "buildGroups Script_js bulbasaur_only GEN1 0 = Inr (?G, 1266)" by code_simp
  have l: "length (concat ?G) = 16" by simp
  have d: "\<not> distinct (concat ?G)" by simp
  have c: "card (set (concat ?G)) = 15" by code_simp
  show ?thesis using e l d c by blast
qed

text \<open>
  Claim C4 fails on the code at the same place. \<open>buildEvolutionGroup\<close> returns the
  three-member Bulbasaur family, and \<open>findSameTypeFiller\<close>, asked for one more name
  of the type of \<open>bulbasaur\<close>, finds \<open>bulbasaur\<close> first in the pool and returns
  it: the concatenation has four entries but three members.
\<close>

theorem filler_returns_the_reference:
  "buildEvolutionGroup Script_js bulbasaur_only GEN1 GROUP_SIZE 0
      = (Some [''bulbasaur'', ''ivysaur'', ''venusaur''], 147)
   \<and> findSameTypeFiller Script_js bulbasaur_only GEN1 ''bulbasaur'' 1 147
      = Inr ([''bulbasaur''], GEN1, 149)
   \<and> length ([''bulbasaur'', ''ivysaur'', ''venusaur''] @ [''bulbasaur'']) = GROUP_SIZE
   \<and> card (set ([''bulbasaur'', ''ivysaur'', ''venusaur''] @ [''bulbasaur''])) = 3"
proof -
  have a: "buildEvolutionGroup Script_js bulbasaur_only GEN1 GROUP_SIZE 0
      = (Some [''bulbasaur'', ''ivysaur'', ''venusaur''], 147)"
    by code_simp
  have b: "findSameTypeFiller Script_js bulbasaur_only GEN1 ''bulbasaur'' 1 147
      = Inr ([''bulbasaur''], GEN1, 149)"
    by code_simp
  have c: "length ([''bulbasaur'', ''ivysaur'', ''venusaur''] @ [''bulbasaur'']) = GROUP_SIZE"
    by (simp add: GROUP_SIZE_def)
  have d: "card (set ([''bulbasaur'', ''ivysaur'', ''venusaur''] @ [''bulbasaur''])) = 3"
    by code_simp
  show ?thesis using a b c d by blast
qed

section \<open>Hints\<close>

text \<open>
  Claim C9 fails on the code. \<open>metadata.generation\<close> is a string, so
  \<open>metas[0].generation.name\<close> is \<open>undefined\<close> and the generation test can never
  hold. Four cards of one generation that share neither primary type nor evolution
  chain and are not legendary get the fallback hint, not the generation hint.
\<close>

theorem generation_hint_never_given:
  "map (\<lambda>c. generation (metadata c)) starter_cards = replicate 4 (Some ''generation-i'')
   \<and> inferHintForGroup starter_cards (map name starter_cards) = ''A shared connection''
   \<and> (\<forall>m. generation_name m = None)"
proof -
  have a: "map (\<lambda>c. generation (metadata c)) starter_cards = replicate 4 (Some ''generation-i'')"
    by code_simp
  have b: "inferHintForGroup starter_cards (map name starter_cards) = ''A shared connection''"
    by code_simp
  have c: "\<forall>m. generation_name m = None"
    by (simp add: generation_name_def name_of_string_def)
  show ?thesis using a b c by blast
qed

end
